theory Spec2Isabelle
  imports Main
begin

section \<open>The resource engine of util.c\<close>

text \<open>
  The engine keeps a tree of resource lists (scopes) and cleanup records, a current
  resource list, and a current error handler. Raising an error destroys the handler's
  resource list and jumps back to the \<open>sigsetjmp\<close> of the \<open>catch_error\<close> that installed
  the handler.

  Pointers are addresses into tables of the state; a pointer that may be \<open>NULL\<close> is an
  \<open>option\<close>. A dereference of a pointer that is \<open>NULL\<close> or that names no live object of
  the expected kind is the outcome \<open>Fault\<close>.
\<close>

subsection \<open>Data model\<close>

text \<open>
  \<open>cleanupfn\<close>: the functions that the engine itself commits (\<open>free\<close>, \<open>fd_cleanup\<close>)
  and \<open>CF_client k\<close>, a callback of a client of the engine (as \<open>cleanup_prgname\<close> and
  \<open>cleanup_dbglock\<close> are) that works on its own data only; its invocation is
  recorded and nothing else. \<open>fndata\<close> is the \<open>void*\<close> argument read as \<open>intptr_t\<close>.
\<close>

datatype cleanupfn = CF_free | CF_fd_cleanup | CF_client nat

type_synonym fndata = int

text \<open>
  \<open>struct resource\<close> with its two extensions. A \<open>Reslist\<close> carries its parent pointer
  and its \<open>contents\<close>, head first; a \<open>Cleanup\<close> carries \<open>fn\<close> (\<open>None\<close> is the
  \<open>NULL\<close> of an unarmed record) and \<open>fndata\<close>.
\<close>

datatype resource =
    Reslist "nat option" "nat list"
  | Cleanup "cleanupfn option" fndata

text \<open>Memory handed out by \<open>xalloc\<close>: its size and what has been stored in it.\<close>

datatype content =
    Uninit
  | Zeroed
  | CString string
  | FdhData "nat option" "int option"

datatype block = Block (bsize: nat) (bcontent: content)

text \<open>A \<open>char*\<close> stored in an error-info slot.\<close>

datatype strptr = SNull | SStatic string | SHeap nat

record errinfo =
  ei_err :: int
  ei_msg :: strptr
  ei_prgname :: strptr
  ei_want_msg :: bool

text \<open>
  \<open>struct errhandler\<close>. \<open>errh_where\<close> stands for the jump buffer: it identifies the
  activation of \<open>catch_error\<close> that owns the handler.
\<close>

record errhandler =
  errh_where :: nat
  errh_rl :: nat
  errh_ei :: "nat option"

text \<open>What the environment answers to a call that can fail (\<open>malloc\<close>, \<open>open\<close>, \<open>pipe2\<close>, \<open>fcntl\<close>).\<close>

datatype ext_result = Succeed | Fail int

text \<open>
  The variable arguments of a formatting call (an \<open>int\<close> or a \<open>char*\<close>), and what
  \<open>vsnprintf\<close> does with a format and its arguments: it produces the output (and
  returns its length), it fails (a negative return value), or its behaviour is
  undefined.
\<close>

datatype parg = AInt int | AStr string

datatype fmt_result = Formatted string | Failed | Undefined

text \<open>
  The state of the process as far as the engine sees it. \<open>nodes\<close> holds the
  \<open>struct reslist\<close> and \<open>struct cleanup\<close> objects and \<open>blocks\<close> the memory of
  \<open>xalloc\<close>; an address is an index, a freed object is \<open>None\<close>, and \<open>malloc\<close> returns
  the next index. \<open>sched\<close> is the environment's script for the calls that can fail
  (an exhausted script lets every call succeed). \<open>n_malloc\<close> counts the calls of
  \<open>malloc\<close> and \<open>invoked\<close> logs the cleanup functions called, oldest first.
  \<open>strerror\<close> and \<open>libc_format\<close> are the C library of the process:
  \<open>libc_format\<close> is its \<open>vsnprintf\<close> on the formats and arguments for which the
  result is not fixed below.
\<close>

record state =
  nodes :: "resource option list"
  blocks :: "block option list"
  current_reslist :: "nat option"
  current_errh :: "errhandler option"
  eis :: "nat \<Rightarrow> errinfo"
  open_fds :: "int list"
  errno :: int
  prgname :: string
  strerror :: "int \<Rightarrow> string"
  libc_format :: "string \<Rightarrow> parg list \<Rightarrow> fmt_result"
  sched :: "ext_result list"
  n_malloc :: nat
  invoked :: "(cleanupfn \<times> fndata) list"

datatype abort_reason = NoHandler | BadDescriptor

text \<open>
  How a call ends: it returns a value, it leaves by \<open>siglongjmp\<close> to the jump buffer
  \<open>w\<close>, the process is ended by \<open>abort()\<close>, or the behaviour is undefined.
\<close>

datatype 'a outcome =
    Ret 'a state
  | Jump nat state
  | Abort abort_reason
  | Fault

fun andthen :: "'a outcome \<Rightarrow> ('a \<Rightarrow> state \<Rightarrow> 'b outcome) \<Rightarrow> 'b outcome" where
  "andthen (Ret v s) k = k v s"
| "andthen (Jump w s) k = Jump w s"
| "andthen (Abort r) k = Abort r"
| "andthen Fault k = Fault"

definition ENOMEM :: int where "ENOMEM = 12"
definition EINVAL :: int where "EINVAL = 22"
definition EBADF :: int where "EBADF = 9"

subsection \<open>Memory and the environment\<close>

definition node_at :: "state \<Rightarrow> nat \<Rightarrow> resource option" where
  "node_at s a = (if a < length (nodes s) then nodes s ! a else None)"

definition set_node :: "nat \<Rightarrow> resource \<Rightarrow> state \<Rightarrow> state" where
  "set_node a r s = s\<lparr>nodes := (nodes s)[a := Some r]\<rparr>"

definition free_node :: "nat \<Rightarrow> state \<Rightarrow> state" where
  "free_node a s = s\<lparr>nodes := (nodes s)[a := None]\<rparr>"

definition block_at :: "state \<Rightarrow> nat \<Rightarrow> block option" where
  "block_at s a = (if a < length (blocks s) then blocks s ! a else None)"

text \<open>The next answer of the environment.\<close>

definition ext_call :: "state \<Rightarrow> ext_result \<times> state" where
  "ext_call s = (case sched s of [] \<Rightarrow> (Succeed, s) | r # rs \<Rightarrow> (r, s\<lparr>sched := rs\<rparr>))"

text \<open>
  \<open>malloc\<close>: whether the call succeeded. The caller of a successful call places the
  new object at the next index of its table.
\<close>

definition malloc :: "state \<Rightarrow> bool \<times> state" where
  "malloc s = (case ext_call (s\<lparr>n_malloc := Suc (n_malloc s)\<rparr>) of
                 (Succeed, s1) \<Rightarrow> (True, s1)
               | (Fail e, s1) \<Rightarrow> (False, s1))"

text \<open>\<open>free(p)\<close> on memory of \<open>xalloc\<close>.\<close>

definition free_block :: "fndata \<Rightarrow> state \<Rightarrow> state" where
  "free_block p s = (if 0 \<le> p then s\<lparr>blocks := (blocks s)[nat p := None]\<rparr> else s)"

text \<open>
  \<open>fd_cleanup\<close>: \<open>close\<close> of a descriptor that is not open fails with \<open>EBADF\<close>, and
  then the process aborts.
\<close>

definition fd_cleanup :: "fndata \<Rightarrow> state \<Rightarrow> unit outcome" where
  "fd_cleanup arg s =
     (if arg \<in> set (open_fds s)
      then Ret () (s\<lparr>open_fds := removeAll arg (open_fds s)\<rparr>)
      else Abort BadDescriptor)"

text \<open>The call \<open>cl->fn(cl->fndata)\<close>.\<close>

definition call_cleanupfn :: "cleanupfn \<Rightarrow> fndata \<Rightarrow> state \<Rightarrow> unit outcome" where
  "call_cleanupfn f d s =
     (let s1 = s\<lparr>invoked := invoked s @ [(f, d)]\<rparr>
      in case f of
           CF_free \<Rightarrow> Ret () (free_block d s1)
         | CF_fd_cleanup \<Rightarrow> fd_cleanup d s1
         | CF_client k \<Rightarrow> Ret () s1)"

subsection \<open>Resource lists\<close>

text \<open>
  \<open>LIST_REMOVE(&rl->r, link)\<close> for a resource list with the parent \<open>p\<close>: a resource
  list is linked into the \<open>contents\<close> of its parent (\<open>reslist_push_new\<close> sets both
  together), so the removal takes it out of that list.
\<close>

definition list_remove_from :: "nat \<Rightarrow> nat \<Rightarrow> state \<Rightarrow> state option" where
  "list_remove_from p a s =
     (case node_at s p of
        Some (Reslist pp c) \<Rightarrow> Some (set_node p (Reslist pp (remove1 a c)) s)
      | _ \<Rightarrow> None)"

text \<open>The number of links of all \<open>contents\<close> lists.\<close>

definition links :: "state \<Rightarrow> nat" where
  "links s = sum_list (map (\<lambda>x. case x of Some (Reslist p c) \<Rightarrow> length c | _ \<Rightarrow> 0) (nodes s))"

text \<open>
  \<open>reslist_destroy\<close>, with its \<open>while\<close> loop as \<open>destroy_contents\<close>. The loop takes
  the first resource off \<open>contents\<close>; a resource list has its parent pointer cleared
  and is destroyed by the recursive call, a cleanup record has its function called if
  it has one and is freed.
\<close>

function reslist_destroy :: "nat \<Rightarrow> state \<Rightarrow> unit outcome"
  and destroy_contents :: "nat \<Rightarrow> state \<Rightarrow> unit outcome"
where
  "reslist_destroy rl s =
     (case node_at s rl of
        Some (Reslist parent c) \<Rightarrow>
          (case (case parent of None \<Rightarrow> Some s | Some p \<Rightarrow> list_remove_from p rl s) of
             None \<Rightarrow> Fault
           | Some s1 \<Rightarrow>
               (case destroy_contents rl s1 of
                  Ret u s2 \<Rightarrow> Ret () (free_node rl s2)
                | Jump w s2 \<Rightarrow> Jump w s2
                | Abort r \<Rightarrow> Abort r
                | Fault \<Rightarrow> Fault))
      | _ \<Rightarrow> Fault)"
| "destroy_contents rl s =
     (case node_at s rl of
        Some (Reslist parent []) \<Rightarrow> Ret () s
      | Some (Reslist parent (r # rest)) \<Rightarrow>
          (let s1 = set_node rl (Reslist parent rest) s
           in case node_at s1 r of
                Some (Reslist p c) \<Rightarrow>
                  (case reslist_destroy r (set_node r (Reslist None c) s1) of
                     Ret u s2 \<Rightarrow> destroy_contents rl s2
                   | Jump w s2 \<Rightarrow> Jump w s2
                   | Abort r \<Rightarrow> Abort r
                   | Fault \<Rightarrow> Fault)
              | Some (Cleanup fn d) \<Rightarrow>
                  (case (case fn of Some f \<Rightarrow> call_cleanupfn f d s1 | None \<Rightarrow> Ret () s1) of
                     Ret u s2 \<Rightarrow> destroy_contents rl (free_node r s2)
                   | Jump w s2 \<Rightarrow> Jump w s2
                   | Abort r \<Rightarrow> Abort r
                   | Fault \<Rightarrow> Fault)
              | None \<Rightarrow> Fault)
      | _ \<Rightarrow> Fault)"
  by pat_completeness auto

text \<open>
  \<open>reslist_cleanup_local\<close>, the cleanup of a \<open>SCOPED_RESLIST\<close> variable.
\<close>

definition reslist_cleanup_local :: "nat \<Rightarrow> state \<Rightarrow> unit outcome" where
  "reslist_cleanup_local rl_local s =
     (case node_at s rl_local of
        Some (Reslist parent c) \<Rightarrow> reslist_destroy rl_local (s\<lparr>current_reslist := parent\<rparr>)
      | _ \<Rightarrow> Fault)"

text \<open>\<open>reslist_pop_nodestroy\<close>: \<open>current_reslist = current_reslist->parent\<close>.\<close>

definition reslist_pop_nodestroy :: "state \<Rightarrow> unit outcome" where
  "reslist_pop_nodestroy s =
     (case current_reslist s of
        None \<Rightarrow> Fault
      | Some cur \<Rightarrow>
          (case node_at s cur of
             Some (Reslist parent c) \<Rightarrow> Ret () (s\<lparr>current_reslist := parent\<rparr>)
           | _ \<Rightarrow> Fault))"

subsection \<open>Raising out of memory\<close>

text \<open>The store \<open>ei->err = ENOMEM; ei->msg = "no memory"\<close> of \<open>die_oom\<close>.\<close>

definition set_oom :: "nat \<Rightarrow> state \<Rightarrow> state" where
  "set_oom e s =
     s\<lparr>eis := (eis s)(e := (eis s e)\<lparr>ei_err := ENOMEM, ei_msg := SStatic ''no memory''\<rparr>)\<rparr>"

definition die_oom :: "state \<Rightarrow> 'a outcome" where
  "die_oom s =
     (case current_errh s of
        None \<Rightarrow> Abort NoHandler
      | Some h \<Rightarrow>
          (case node_at s (errh_rl h) of
             Some (Reslist parent c) \<Rightarrow>
               (let s1 = s\<lparr>current_reslist := parent\<rparr>;
                    s2 = (case errh_ei h of None \<Rightarrow> s1 | Some e \<Rightarrow> set_oom e s1)
                in andthen (reslist_destroy (errh_rl h) s2) (\<lambda>u s3. Jump (errh_where h) s3))
           | _ \<Rightarrow> Fault))"

subsection \<open>Creating resource lists and cleanup records\<close>

text \<open>\<open>LIST_INSERT_HEAD(&current_reslist->contents, r, link)\<close>.\<close>

definition insert_head_current :: "nat \<Rightarrow> state \<Rightarrow> state option" where
  "insert_head_current r s =
     (case current_reslist s of
        None \<Rightarrow> None
      | Some cur \<Rightarrow>
          (case node_at s cur of
             Some (Reslist parent c) \<Rightarrow> Some (set_node cur (Reslist parent (r # c)) s)
           | _ \<Rightarrow> None))"

definition reslist_push_new :: "state \<Rightarrow> nat outcome" where
  "reslist_push_new s =
     (case malloc s of
        (False, s1) \<Rightarrow> die_oom s1
      | (True, s1) \<Rightarrow>
          (let rl = length (nodes s1);
               s2 = s1\<lparr>nodes := nodes s1 @ [Some (Reslist (current_reslist s1) [])]\<rparr>
           in case insert_head_current rl s2 of
                None \<Rightarrow> Fault
              | Some s3 \<Rightarrow> Ret rl (s3\<lparr>current_reslist := Some rl\<rparr>)))"

definition cleanup_allocate :: "state \<Rightarrow> nat outcome" where
  "cleanup_allocate s =
     (case malloc s of
        (False, s1) \<Rightarrow> die_oom s1
      | (True, s1) \<Rightarrow>
          (let cl = length (nodes s1);
               s2 = s1\<lparr>nodes := nodes s1 @ [Some (Cleanup None 0)]\<rparr>
           in case insert_head_current cl s2 of
                None \<Rightarrow> Fault
              | Some s3 \<Rightarrow> Ret cl s3))"

definition cleanup_commit :: "nat \<Rightarrow> cleanupfn option \<Rightarrow> fndata \<Rightarrow> state \<Rightarrow> unit outcome" where
  "cleanup_commit cl fn d s =
     (case node_at s cl of
        Some (Cleanup fn0 d0) \<Rightarrow> Ret () (set_node cl (Cleanup fn d) s)
      | _ \<Rightarrow> Fault)"

definition cleanup_commit_close_fd :: "nat \<Rightarrow> int \<Rightarrow> state \<Rightarrow> unit outcome" where
  "cleanup_commit_close_fd cl fd s = cleanup_commit cl (Some CF_fd_cleanup) fd s"

subsection \<open>Installing an error handler\<close>

text \<open>
  \<open>catch_error\<close>. The handler lives in the activation of \<open>catch_error\<close>; its jump
  buffer is named by the depth of the nesting. \<open>sigsetjmp\<close> returns a second time
  exactly when a \<open>siglongjmp\<close> names this buffer; a jump to another buffer passes
  through the activation.
\<close>

definition new_where :: "errhandler option \<Rightarrow> nat" where
  "new_where old_errh = (case old_errh of None \<Rightarrow> 0 | Some h \<Rightarrow> Suc (errh_where h))"

definition catch_error ::
  "('d \<Rightarrow> state \<Rightarrow> 'u outcome) \<Rightarrow> 'd \<Rightarrow> nat option \<Rightarrow> state \<Rightarrow> bool outcome" where
  "catch_error fn fndata ei s =
     (let old_errh = current_errh s
      in andthen (reslist_push_new s) (\<lambda>rl s1.
           let errh = \<lparr>errh_where = new_where old_errh, errh_rl = rl, errh_ei = ei\<rparr>;
               s2 = s1\<lparr>current_errh := Some errh\<rparr>
           in case fn fndata s2 of
                Ret u s3 \<Rightarrow> Ret False (s3\<lparr>current_errh := old_errh\<rparr>)
              | Jump w s3 \<Rightarrow>
                  if w = errh_where errh then Ret True (s3\<lparr>current_errh := old_errh\<rparr>)
                  else Jump w s3
              | Abort r \<Rightarrow> Abort r
              | Fault \<Rightarrow> Fault))"

subsection \<open>Allocation\<close>

definition xalloc :: "nat \<Rightarrow> state \<Rightarrow> nat outcome" where
  "xalloc sz s =
     andthen (cleanup_allocate s) (\<lambda>cl s1.
       case malloc s1 of
         (False, s2) \<Rightarrow> die_oom s2
       | (True, s2) \<Rightarrow>
           (let mem = length (blocks s2);
                s3 = s2\<lparr>blocks := blocks s2 @ [Some (Block sz Uninit)]\<rparr>
            in andthen (cleanup_commit cl (Some CF_free) (int mem) s3) (\<lambda>u s4. Ret mem s4)))"

text \<open>A store into memory of \<open>xalloc\<close>.\<close>

definition store_block :: "nat \<Rightarrow> content \<Rightarrow> state \<Rightarrow> unit outcome" where
  "store_block a c s =
     (case block_at s a of
        Some (Block n c0) \<Rightarrow> Ret () (s\<lparr>blocks := (blocks s)[a := Some (Block n c)]\<rparr>)
      | None \<Rightarrow> Fault)"

definition xcalloc :: "nat \<Rightarrow> state \<Rightarrow> nat outcome" where
  "xcalloc sz s =
     andthen (xalloc sz s) (\<lambda>mem s1.
       andthen (store_block mem Zeroed s1) (\<lambda>u s2. Ret mem s2))"

subsection \<open>Formatted strings\<close>

text \<open>
  \<open>vsnprintf\<close> belongs to the C library. Its result is fixed here for the formats
  that consist of ordinary characters and the directives \<open>%%\<close>, \<open>%d\<close>, \<open>%x\<close>, \<open>%s\<close>
  and \<open>%.Ns\<close> (these are the directives of the engine's own format strings), with
  arguments of the types that the directives expect: an \<open>int\<close> for \<open>%d\<close>, a value
  that is both an \<open>int\<close> and an \<open>unsigned int\<close> for \<open>%x\<close>, a string for \<open>%s\<close>, and
  a precision that is an \<open>int\<close>. Arguments left over are ignored. For every other
  format and argument list (\<open>c_format\<close> gives \<open>None\<close>) the result is that of the C
  library of the state, \<open>libc_format\<close>. An output longer than \<open>INT_MAX\<close> cannot be
  returned as a length: the call fails.
\<close>

definition INT_MAX :: int where
  "INT_MAX = 2147483647"

definition is_int :: "int \<Rightarrow> bool" where
  "is_int i = (- INT_MAX - 1 \<le> i \<and> i \<le> INT_MAX)"

text \<open>The string that a \<open>char*\<close> names: the characters before the first NUL.\<close>

definition cstr :: "string \<Rightarrow> string" where
  "cstr t = takeWhile (\<lambda>c. c \<noteq> CHR 0x00) t"

text \<open>
  The digits of a number that is not negative, to the base 10 or 16, and the precision
  that a directive spells out.
\<close>

datatype fmt_mode = Lit | Pct | Prec int

definition digit_char :: "int \<Rightarrow> char" where
  "digit_char n = ''0123456789abcdef'' ! nat n"

function show_base :: "int \<Rightarrow> int \<Rightarrow> string" where
  "show_base b n =
     (if n < b \<or> b < 2 then [digit_char n]
      else show_base b (n div b) @ [digit_char (n mod b)])"
  by pat_completeness auto

definition show_int :: "int \<Rightarrow> string" where
  "show_int i = (if i < 0 then CHR ''-'' # show_base 10 (- i) else show_base 10 i)"

definition show_hex :: "int \<Rightarrow> string" where
  "show_hex i = show_base 16 i"

definition digit_val :: "char \<Rightarrow> int option" where
  "digit_val c =
     map_of [(CHR ''0'', 0), (CHR ''1'', 1), (CHR ''2'', 2), (CHR ''3'', 3), (CHR ''4'', 4),
             (CHR ''5'', 5), (CHR ''6'', 6), (CHR ''7'', 7), (CHR ''8'', 8), (CHR ''9'', 9)] c"

fun c_format_in :: "fmt_mode \<Rightarrow> string \<Rightarrow> parg list \<Rightarrow> string option" where
  "c_format_in Lit [] args = Some []"
| "c_format_in Lit (c # cs) args =
     (if c = CHR ''%'' then c_format_in Pct cs args
      else map_option ((#) c) (c_format_in Lit cs args))"
| "c_format_in Pct [] args = None"
| "c_format_in Pct (c # cs) args =
     (if c = CHR ''%'' then map_option ((#) c) (c_format_in Lit cs args)
      else if c = CHR ''d'' then
        (case args of
           AInt i # rest \<Rightarrow>
             if is_int i then map_option ((@) (show_int i)) (c_format_in Lit cs rest) else None
         | _ \<Rightarrow> None)
      else if c = CHR ''x'' then
        (case args of
           AInt i # rest \<Rightarrow>
             if 0 \<le> i \<and> is_int i
             then map_option ((@) (show_hex i)) (c_format_in Lit cs rest) else None
         | _ \<Rightarrow> None)
      else if c = CHR ''s'' then
        (case args of
           AStr t # rest \<Rightarrow> map_option ((@) (cstr t)) (c_format_in Lit cs rest)
         | _ \<Rightarrow> None)
      else if c = CHR ''.'' then c_format_in (Prec 0) cs args
      else None)"
| "c_format_in (Prec n) [] args = None"
| "c_format_in (Prec n) (c # cs) args =
     (case digit_val c of
        Some k \<Rightarrow> c_format_in (Prec (10 * n + k)) cs args
      | None \<Rightarrow>
          if c = CHR ''s'' \<and> n \<le> INT_MAX then
            (case args of
               AStr t # rest \<Rightarrow>
                 map_option ((@) (take (nat n) (cstr t))) (c_format_in Lit cs rest)
             | _ \<Rightarrow> None)
          else None)"

definition c_format :: "string \<Rightarrow> parg list \<Rightarrow> string option" where
  "c_format fmt args = c_format_in Lit (cstr fmt) args"

definition vsnprintf :: "state \<Rightarrow> string \<Rightarrow> parg list \<Rightarrow> fmt_result" where
  "vsnprintf s fmt args =
     (case (case c_format fmt args of
              Some out \<Rightarrow> Formatted out
            | None \<Rightarrow> libc_format s fmt args) of
        Formatted out \<Rightarrow> if int (length out) \<le> INT_MAX then Formatted out else Failed
      | Failed \<Rightarrow> Failed
      | Undefined \<Rightarrow> Undefined)"

text \<open>
  \<open>xavprintf\<close> and \<open>diev\<close> call each other: \<open>xavprintf\<close> raises \<open>EINVAL\<close> through
  \<open>die\<close> (which is \<open>diev\<close> on its argument list) when the length pass fails, and
  \<open>diev\<close> formats its message with \<open>xavprintf\<close> and copies the program name with
  \<open>xstrdup\<close>, which is \<open>xavprintf\<close> on the format \<open>%s\<close>. Neither \<open>die\<close> nor
  \<open>diev\<close> returns; a return from them would be undefined behaviour.

  When the length pass for the copy of the program name fails (the name is longer than
  \<open>INT_MAX\<close>), \<open>xstrdup\<close> raises through \<open>die\<close>, which comes back to the same
  copy: \<open>diev\<close> calls itself, and every round allocates its message anew. The
  rounds end when an allocation fails. When none is going to fail (the script of the
  environment is exhausted) they do not end and the stack is exhausted: this is the
  outcome \<open>Fault\<close> of the first branch under \<open>ei_want_msg\<close>.
\<close>

definition set_err :: "nat \<Rightarrow> int \<Rightarrow> state \<Rightarrow> state" where
  "set_err e err s = s\<lparr>eis := (eis s)(e := (eis s e)\<lparr>ei_err := err\<rparr>)\<rparr>"

definition set_msg :: "nat \<Rightarrow> strptr \<Rightarrow> state \<Rightarrow> state" where
  "set_msg e m s = s\<lparr>eis := (eis s)(e := (eis s e)\<lparr>ei_msg := m\<rparr>)\<rparr>"

definition set_prgname_slot :: "nat \<Rightarrow> strptr \<Rightarrow> state \<Rightarrow> state" where
  "set_prgname_slot e p s = s\<lparr>eis := (eis s)(e := (eis s e)\<lparr>ei_prgname := p\<rparr>)\<rparr>"

text \<open>The end of \<open>diev\<close>: \<open>reslist_destroy(current_errh->rl); siglongjmp(...)\<close>.\<close>

definition destroy_and_jump :: "errhandler \<Rightarrow> state \<Rightarrow> 'a outcome" where
  "destroy_and_jump h s =
     andthen (reslist_destroy (errh_rl h) s) (\<lambda>u s1. Jump (errh_where h) s1)"

function xavprintf :: "string \<Rightarrow> parg list \<Rightarrow> state \<Rightarrow> nat outcome"
  and diev :: "int \<Rightarrow> string \<Rightarrow> parg list \<Rightarrow> state \<Rightarrow> nat outcome"
where
  "xavprintf fmt args s =
     (case vsnprintf s fmt args of
        Failed \<Rightarrow>
          (case diev EINVAL ''invalid format string %.80s'' [AStr fmt] s of
             Ret v s1 \<Rightarrow> Fault
           | Jump w s1 \<Rightarrow> Jump w s1
           | Abort r \<Rightarrow> Abort r
           | Fault \<Rightarrow> Fault)
      | Undefined \<Rightarrow> Fault
      | Formatted out \<Rightarrow>
          (let buflen = length out + 1
           in andthen (xalloc buflen s) (\<lambda>buf s1.
                case vsnprintf s1 fmt args of
                  Formatted out2 \<Rightarrow>
                    andthen (store_block buf (CString (take (buflen - 1) out2)) s1)
                      (\<lambda>u s2. Ret buf s2)
                | Failed \<Rightarrow> Ret buf s1
                | Undefined \<Rightarrow> Fault)))"
| "diev err fmt args s =
     (case current_errh s of
        None \<Rightarrow> Abort NoHandler
      | Some h \<Rightarrow>
          (case node_at s (errh_rl h) of
             Some (Reslist parent c) \<Rightarrow>
               (let s1 = s\<lparr>current_reslist := parent\<rparr>
                in case errh_ei h of
                     None \<Rightarrow> destroy_and_jump h s1
                   | Some e \<Rightarrow>
                       (let s2 = set_err e err s1
                        in if ei_want_msg (eis s2 e)
                           then
                             if vsnprintf s2 ''%s'' [AStr (prgname s2)] = Failed \<and>
                                sched s2 = []
                             then Fault
                             else
                             (case xavprintf fmt args s2 of
                                Ret m s3 \<Rightarrow>
                                  (let s4 = set_msg e (SHeap m) s3
                                   in case xavprintf ''%s'' [AStr (prgname s4)] s4 of
                                        Ret p s5 \<Rightarrow>
                                          destroy_and_jump h (set_prgname_slot e (SHeap p) s5)
                                      | Jump w s5 \<Rightarrow> Jump w s5
                                      | Abort r \<Rightarrow> Abort r
                                      | Fault \<Rightarrow> Fault)
                              | Jump w s3 \<Rightarrow> Jump w s3
                              | Abort r \<Rightarrow> Abort r
                              | Fault \<Rightarrow> Fault)
                           else destroy_and_jump h s2))
           | _ \<Rightarrow> Fault))"
  by pat_completeness auto

text \<open>A call of a function that does not return, at any result type.\<close>

definition noreturn :: "nat outcome \<Rightarrow> 'a outcome" where
  "noreturn m = andthen m (\<lambda>v s. Fault)"

definition die :: "int \<Rightarrow> string \<Rightarrow> parg list \<Rightarrow> state \<Rightarrow> 'a outcome" where
  "die err fmt args s = noreturn (diev err fmt args s)"

definition xaprintf :: "string \<Rightarrow> parg list \<Rightarrow> state \<Rightarrow> nat outcome" where
  "xaprintf fmt args s = xavprintf fmt args s"

definition xstrdup :: "string \<Rightarrow> state \<Rightarrow> nat outcome" where
  "xstrdup str s = xaprintf ''%s'' [AStr str] s"

text \<open>The string that a \<open>char*\<close> result of \<open>xavprintf\<close> points to.\<close>

definition string_at :: "state \<Rightarrow> nat \<Rightarrow> string option" where
  "string_at s a = (case block_at s a of Some (Block n (CString t)) \<Rightarrow> Some t | _ \<Rightarrow> None)"

definition die_errno :: "string \<Rightarrow> parg list \<Rightarrow> state \<Rightarrow> 'a outcome" where
  "die_errno fmt args s =
     (let e = errno s
      in andthen (xavprintf fmt args s) (\<lambda>m s1.
           case string_at s1 m of
             None \<Rightarrow> Fault
           | Some t \<Rightarrow> die e ''%s: %s'' [AStr t, AStr (strerror s1 e)] s1))"

subsection \<open>Descriptors\<close>

text \<open>
  The system calls. A call that succeeds returns the lowest descriptor that is not open
  (\<open>F_DUPFD_CLOEXEC\<close>: the lowest one from its argument on); a call that fails returns
  \<open>-1\<close> and sets \<open>errno\<close>. Duplicating a descriptor that is not open fails with
  \<open>EBADF\<close>.
\<close>

definition lowest_free :: "int \<Rightarrow> int list \<Rightarrow> int" where
  "lowest_free lo fds = hd (filter (\<lambda>i. i \<notin> set fds) [lo .. lo + int (length fds)])"

definition sys_open :: "string \<Rightarrow> state \<Rightarrow> int \<times> state" where
  "sys_open pathname s =
     (case ext_call s of
        (Fail e, s1) \<Rightarrow> (- 1, s1\<lparr>errno := e\<rparr>)
      | (Succeed, s1) \<Rightarrow>
          (let fd = lowest_free 0 (open_fds s1)
           in (fd, s1\<lparr>open_fds := fd # open_fds s1\<rparr>)))"

definition sys_pipe2 :: "state \<Rightarrow> (int \<times> int) option \<times> state" where
  "sys_pipe2 s =
     (case ext_call s of
        (Fail e, s1) \<Rightarrow> (None, s1\<lparr>errno := e\<rparr>)
      | (Succeed, s1) \<Rightarrow>
          (let fd0 = lowest_free 0 (open_fds s1);
               fd1 = lowest_free 0 (fd0 # open_fds s1)
           in (Some (fd0, fd1), s1\<lparr>open_fds := fd1 # fd0 # open_fds s1\<rparr>)))"

definition sys_dupfd :: "int \<Rightarrow> state \<Rightarrow> int \<times> state" where
  "sys_dupfd fd s =
     (if fd \<notin> set (open_fds s) then (- 1, s\<lparr>errno := EBADF\<rparr>)
      else case ext_call s of
             (Fail e, s1) \<Rightarrow> (- 1, s1\<lparr>errno := e\<rparr>)
           | (Succeed, s1) \<Rightarrow>
               (let newfd = lowest_free fd (open_fds s1)
                in (newfd, s1\<lparr>open_fds := newfd # open_fds s1\<rparr>)))"

definition xopen :: "string \<Rightarrow> state \<Rightarrow> int outcome" where
  "xopen pathname s =
     andthen (cleanup_allocate s) (\<lambda>cl s1.
       case sys_open pathname s1 of
         (fd, s2) \<Rightarrow>
           if fd = - 1 then die_errno (''open('' @ [CHR 0x22] @ ''%s'' @ [CHR 0x22] @ '')'') [AStr pathname] s2
           else andthen (cleanup_commit_close_fd cl fd s2) (\<lambda>u s3. Ret fd s3))"

definition xpipe :: "state \<Rightarrow> (int \<times> int) outcome" where
  "xpipe s =
     andthen (cleanup_allocate s) (\<lambda>cl0 s1.
       andthen (cleanup_allocate s1) (\<lambda>cl1 s2.
         case sys_pipe2 s2 of
           (None, s3) \<Rightarrow> die_errno ''pipe2'' [] s3
         | (Some (fd0, fd1), s3) \<Rightarrow>
             andthen (cleanup_commit_close_fd cl0 fd0 s3) (\<lambda>u s4.
               andthen (cleanup_commit_close_fd cl1 fd1 s4) (\<lambda>u s5. Ret (fd0, fd1) s5))))"

definition xdup :: "int \<Rightarrow> state \<Rightarrow> int outcome" where
  "xdup fd s =
     andthen (cleanup_allocate s) (\<lambda>cl s1.
       case sys_dupfd fd s1 of
         (newfd, s2) \<Rightarrow>
           if newfd = - 1 then die_errno ''F_DUPFD_CLOEXEC'' [] s2
           else andthen (cleanup_commit_close_fd cl newfd s2) (\<lambda>u s3. Ret newfd s3))"

text \<open>
  \<open>struct fdh\<close> lives in memory of \<open>xalloc\<close>; \<open>sizeof_fdh\<close> is its size (a pointer
  and an \<open>int\<close>).
\<close>

definition sizeof_fdh :: nat where
  "sizeof_fdh = 16"

definition store_fdh_rl :: "nat \<Rightarrow> nat \<Rightarrow> state \<Rightarrow> unit outcome" where
  "store_fdh_rl fdh rl s =
     (case block_at s fdh of
        Some (Block n c) \<Rightarrow>
          store_block fdh (FdhData (Some rl) (case c of FdhData r f \<Rightarrow> f | _ \<Rightarrow> None)) s
      | None \<Rightarrow> Fault)"

definition store_fdh_fd :: "nat \<Rightarrow> int \<Rightarrow> state \<Rightarrow> unit outcome" where
  "store_fdh_fd fdh fd s =
     (case block_at s fdh of
        Some (Block n c) \<Rightarrow>
          store_block fdh (FdhData (case c of FdhData r f \<Rightarrow> r | _ \<Rightarrow> None) (Some fd)) s
      | None \<Rightarrow> Fault)"

definition fdh_dup :: "int \<Rightarrow> state \<Rightarrow> nat outcome" where
  "fdh_dup fd s =
     andthen (reslist_push_new s) (\<lambda>rl s1.
       andthen (xalloc sizeof_fdh s1) (\<lambda>fdh s2.
         andthen (store_fdh_rl fdh rl s2) (\<lambda>u s3.
           andthen (xdup fd s3) (\<lambda>newfd s4.
             andthen (store_fdh_fd fdh newfd s4) (\<lambda>u s5.
               andthen (reslist_pop_nodestroy s5) (\<lambda>u s6. Ret fdh s6))))))"

definition fdh_destroy :: "nat \<Rightarrow> state \<Rightarrow> unit outcome" where
  "fdh_destroy fdh s =
     (case block_at s fdh of
        Some (Block n (FdhData (Some rl) f)) \<Rightarrow> reslist_destroy rl s
      | _ \<Rightarrow> Fault)"

subsection \<open>Properties of outcomes\<close>

text \<open>The weight of a node in \<open>links\<close>.\<close>

definition weight :: "resource option \<Rightarrow> nat" where
  "weight x = (case x of Some (Reslist p c) \<Rightarrow> length c | _ \<Rightarrow> 0)"

text \<open>
  \<open>ok_out s m\<close>: the outcome \<open>m\<close> of a call made in the state \<open>s\<close> respects the
  handler discipline. A return leaves the current handler as it was; a jump goes to the
  jump buffer of the handler that was current at the call, and leaves it current; an
  abort for want of a handler happens only without a handler.
\<close>

definition ok_out :: "state \<Rightarrow> 'a outcome \<Rightarrow> bool" where
  "ok_out s m =
     (case m of
        Ret v s' \<Rightarrow> current_errh s' = current_errh s
      | Jump w s' \<Rightarrow>
          current_errh s' = current_errh s \<and> (\<exists>h. current_errh s = Some h \<and> w = errh_where h)
      | Abort r \<Rightarrow> r = NoHandler \<longrightarrow> current_errh s = None
      | Fault \<Rightarrow> True)"

text \<open>
  \<open>untouched s s'\<close>: the two states differ at most in the objects of the tree, the
  memory of \<open>xalloc\<close>, the open descriptors and the log of cleanup calls.
\<close>

definition untouched :: "state \<Rightarrow> state \<Rightarrow> bool" where
  "untouched s s' =
     (current_reslist s' = current_reslist s \<and> current_errh s' = current_errh s \<and>
      eis s' = eis s \<and> errno s' = errno s \<and> prgname s' = prgname s \<and>
      strerror s' = strerror s \<and> libc_format s' = libc_format s \<and>
      sched s' = sched s \<and> n_malloc s' = n_malloc s)"

text \<open>\<open>quiet_out s m\<close>: the outcome of a call that neither raises nor allocates.\<close>

definition quiet_out :: "state \<Rightarrow> 'a outcome \<Rightarrow> bool" where
  "quiet_out s m =
     (case m of
        Ret v s' \<Rightarrow> untouched s s'
      | Jump w s' \<Rightarrow> False
      | Abort r \<Rightarrow> r = BadDescriptor
      | Fault \<Rightarrow> True)"

subsection \<open>A process to run the engine in\<close>

text \<open>
  \<open>boot\<close> is the state that \<open>main\<close> sets up before its first call into the engine:
  the resource list \<open>dummy_top\<close> (at address 0) is current and has no parent, no
  handler is installed, and the standard descriptors are open. Every error-info slot
  asks for a message, as the one of \<open>main\<close> does. The C library of \<open>boot\<close> fails on
  every format that is left to it.
\<close>

definition boot :: state where
  "boot =
     \<lparr>nodes = [Some (Reslist None [])], blocks = [], current_reslist = Some 0,
      current_errh = None,
      eis = (\<lambda>e. \<lparr>ei_err = 0, ei_msg = SNull, ei_prgname = SNull, ei_want_msg = True\<rparr>),
      open_fds = [0, 1, 2], errno = 0, prgname = ''fb-adb'', strerror = (\<lambda>e. ''failed''),
      libc_format = (\<lambda>fmt args. Failed),
      sched = [], n_malloc = 0, invoked = []\<rparr>"

text \<open>
  \<open>guarded\<close> is \<open>boot\<close> after \<open>catch_error\<close> has pushed the resource list of its
  handler (at address 1) and installed the handler, with the error-info slot 0.
\<close>

definition guarded :: state where
  "guarded =
     boot\<lparr>nodes := [Some (Reslist None [1]), Some (Reslist (Some 0) [])],
          current_reslist := Some 1,
          current_errh := Some \<lparr>errh_where = 0, errh_rl = 1, errh_ei = Some 0\<rparr>,
          n_malloc := 1\<rparr>"

subsection \<open>Code that runs under a handler\<close>

text \<open>
  The body that \<open>catch_error\<close> runs is client code. It reaches \<open>current_errh\<close> (a
  \<open>static\<close> variable of util.c) through the functions of util.c only. \<open>engine_code\<close>
  is the class of such code: calls of the engine, steps of the client on data of its own,
  sequences of them passing values on, and nested \<open>catch_error\<close>.
\<close>

datatype val = VUnit | VNat nat | VInt int | VBool bool | VFds int int

datatype call =
    C_reslist_push_new
  | C_reslist_pop_nodestroy
  | C_reslist_cleanup_local nat
  | C_reslist_destroy nat
  | C_cleanup_allocate
  | C_cleanup_commit nat "cleanupfn option" fndata
  | C_cleanup_commit_close_fd nat int
  | C_xavprintf string "parg list"
  | C_xaprintf string "parg list"
  | C_xstrdup string
  | C_xalloc nat
  | C_xcalloc nat
  | C_diev int string "parg list"
  | C_die int string "parg list"
  | C_die_errno string "parg list"
  | C_xopen string
  | C_xpipe
  | C_xdup int
  | C_fdh_dup int
  | C_fdh_destroy nat

definition returning :: "('a \<Rightarrow> val) \<Rightarrow> 'a outcome \<Rightarrow> val outcome" where
  "returning f m = andthen m (\<lambda>v s. Ret (f v) s)"

fun do_call :: "call \<Rightarrow> state \<Rightarrow> val outcome" where
  "do_call C_reslist_push_new s = returning VNat (reslist_push_new s)"
| "do_call C_reslist_pop_nodestroy s = returning (\<lambda>u. VUnit) (reslist_pop_nodestroy s)"
| "do_call (C_reslist_cleanup_local rl) s = returning (\<lambda>u. VUnit) (reslist_cleanup_local rl s)"
| "do_call (C_reslist_destroy rl) s = returning (\<lambda>u. VUnit) (reslist_destroy rl s)"
| "do_call C_cleanup_allocate s = returning VNat (cleanup_allocate s)"
| "do_call (C_cleanup_commit cl fn d) s = returning (\<lambda>u. VUnit) (cleanup_commit cl fn d s)"
| "do_call (C_cleanup_commit_close_fd cl fd) s =
     returning (\<lambda>u. VUnit) (cleanup_commit_close_fd cl fd s)"
| "do_call (C_xavprintf fmt args) s = returning VNat (xavprintf fmt args s)"
| "do_call (C_xaprintf fmt args) s = returning VNat (xaprintf fmt args s)"
| "do_call (C_xstrdup str) s = returning VNat (xstrdup str s)"
| "do_call (C_xalloc sz) s = returning VNat (xalloc sz s)"
| "do_call (C_xcalloc sz) s = returning VNat (xcalloc sz s)"
| "do_call (C_diev err fmt args) s = returning VNat (diev err fmt args s)"
| "do_call (C_die err fmt args) s = die err fmt args s"
| "do_call (C_die_errno fmt args) s = die_errno fmt args s"
| "do_call (C_xopen pathname) s = returning VInt (xopen pathname s)"
| "do_call C_xpipe s = returning (\<lambda>(r, w). VFds r w) (xpipe s)"
| "do_call (C_xdup fd) s = returning VInt (xdup fd s)"
| "do_call (C_fdh_dup fd) s = returning VNat (fdh_dup fd s)"
| "do_call (C_fdh_destroy fdh) s = returning (\<lambda>u. VUnit) (fdh_destroy fdh s)"

text \<open>A step of the client: it leaves the variables and the objects of the engine alone.\<close>

definition client_step :: "(state \<Rightarrow> state) \<Rightarrow> bool" where
  "client_step upd =
     (\<forall>s. current_errh (upd s) = current_errh s \<and>
          current_reslist (upd s) = current_reslist s \<and> nodes (upd s) = nodes s)"

inductive engine_code :: "(state \<Rightarrow> val outcome) \<Rightarrow> bool" where
  ec_call: "engine_code (do_call c)"
| ec_client: "client_step upd \<Longrightarrow> engine_code (\<lambda>s. Ret (f s) (upd s))"
| ec_seq: "engine_code m \<Longrightarrow> (\<And>v. engine_code (k v)) \<Longrightarrow> engine_code (\<lambda>s. andthen (m s) k)"
| ec_catch: "(\<And>d. engine_code (fn d)) \<Longrightarrow>
     engine_code (\<lambda>s. returning VBool (catch_error fn (d :: val) ei s))"

text \<open>
  The depth of the handler stack, read off the current handler, and the state in which
  the body of \<open>catch_error\<close> starts: \<open>s\<close> is the state at the call, \<open>rl\<close> and \<open>s1\<close> are
  what \<open>reslist_push_new\<close> returned.
\<close>

definition errh_depth :: "state \<Rightarrow> nat" where
  "errh_depth s = (case current_errh s of None \<Rightarrow> 0 | Some h \<Rightarrow> Suc (errh_where h))"

definition enter :: "nat option \<Rightarrow> state \<Rightarrow> nat \<Rightarrow> state \<Rightarrow> state" where
  "enter ei s rl s1 =
     s1\<lparr>current_errh :=
          Some \<lparr>errh_where = new_where (current_errh s), errh_rl = rl, errh_ei = ei\<rparr>\<rparr>"

subsection \<open>The tree that a resource list stands for\<close>

text \<open>
  The objects reachable from a resource list, as a tree: a cleanup record with its
  address, function and argument, or a resource list with its address and its contents,
  head first.
\<close>

datatype rtree =
    RCleanup nat "cleanupfn option" fndata
  | RScope nat "rtree list"

fun raddr :: "rtree \<Rightarrow> nat" where
  "raddr (RCleanup a f d) = a"
| "raddr (RScope a ts) = a"

text \<open>The addresses of a tree, and the calls that its armed records stand for, in pre-order.\<close>

fun addrs :: "rtree \<Rightarrow> nat list" where
  "addrs (RCleanup a f d) = [a]"
| "addrs (RScope a ts) = a # concat (map addrs ts)"

fun acts :: "rtree \<Rightarrow> (cleanupfn \<times> fndata) list" where
  "acts (RCleanup a f d) = (case f of None \<Rightarrow> [] | Some g \<Rightarrow> [(g, d)])"
| "acts (RScope a ts) = concat (map acts ts)"

text \<open>
  \<open>rep s par t\<close>: in the state \<open>s\<close> the tree \<open>t\<close> is laid out at its addresses, and
  its root, if a resource list, has the parent pointer \<open>par\<close>.
\<close>

fun rep :: "state \<Rightarrow> nat option \<Rightarrow> rtree \<Rightarrow> bool" where
  "rep s par (RCleanup a f d) = (node_at s a = Some (Cleanup f d))"
| "rep s par (RScope a ts) =
     (node_at s a = Some (Reslist par (map raddr ts)) \<and> (\<forall>t \<in> set ts. rep s (Some a) t))"

text \<open>The cleanup calls of a list, made one after the other.\<close>

fun run_actions :: "(cleanupfn \<times> fndata) list \<Rightarrow> state \<Rightarrow> unit outcome" where
  "run_actions [] s = Ret () s"
| "run_actions ((f, d) # rest) s = andthen (call_cleanupfn f d s) (\<lambda>u. run_actions rest)"

text \<open>
  \<open>sweep dead N\<close>: the table of objects \<open>N\<close> with the ones at the addresses \<open>dead\<close>
  freed. \<open>finish as N s\<close>: the cleanup calls \<open>as\<close> made from \<open>s\<close>, and then the table
  of objects replaced by \<open>N\<close>.
\<close>

definition sweep :: "nat set \<Rightarrow> resource option list \<Rightarrow> resource option list" where
  "sweep dead N = map (\<lambda>i. if i \<in> dead then None else N ! i) [0 ..< length N]"

definition finish ::
  "(cleanupfn \<times> fndata) list \<Rightarrow> resource option list \<Rightarrow> state \<Rightarrow> unit outcome" where
  "finish as N s = andthen (run_actions as s) (\<lambda>u sa. Ret () (sa\<lparr>nodes := N\<rparr>))"

text \<open>The state after \<open>LIST_REMOVE\<close> has taken the resource list \<open>rl\<close> out of its parent.\<close>

definition unlinked :: "nat option \<Rightarrow> nat \<Rightarrow> state \<Rightarrow> state" where
  "unlinked par rl s =
     (case par of
        None \<Rightarrow> s
      | Some p \<Rightarrow> (case list_remove_from p rl s of None \<Rightarrow> s | Some s1 \<Rightarrow> s1))"

text \<open>
  Changes of the tree: a new node at the head of the resource list at the address
  \<open>cur\<close>, looked for from the root through first elements, and the function and
  argument of the cleanup record at the address \<open>cl\<close> replaced.
\<close>

fun tinsert :: "nat \<Rightarrow> rtree \<Rightarrow> rtree \<Rightarrow> rtree" where
  "tinsert cur n (RCleanup a f d) = RCleanup a f d"
| "tinsert cur n (RScope a ts) =
     (if a = cur then RScope a (n # ts)
      else case ts of [] \<Rightarrow> RScope a [] | t # rest \<Rightarrow> RScope a (tinsert cur n t # rest))"

fun tcommit :: "nat \<Rightarrow> cleanupfn option \<Rightarrow> fndata \<Rightarrow> rtree \<Rightarrow> rtree" where
  "tcommit cl fn d (RCleanup a f0 d0) = (if a = cl then RCleanup a fn d else RCleanup a f0 d0)"
| "tcommit cl fn d (RScope a ts) = RScope a (map (tcommit cl fn d) ts)"

text \<open>The addresses of the resource lists of a tree, and of its cleanup records with what they hold.\<close>

fun scopes :: "rtree \<Rightarrow> nat list" where
  "scopes (RCleanup a f d) = []"
| "scopes (RScope a ts) = a # concat (map scopes ts)"

fun recs :: "rtree \<Rightarrow> (nat \<times> cleanupfn option \<times> fndata) list" where
  "recs (RCleanup a f d) = [(a, f, d)]"
| "recs (RScope a ts) = concat (map recs ts)"

text \<open>
  \<open>on_spine cur t\<close>: the resource list at \<open>cur\<close> is the root of \<open>t\<close> or is reached from
  it through first elements only. That is where the current resource list is while
  pushes and pops are nested.
\<close>

fun on_spine :: "nat \<Rightarrow> rtree \<Rightarrow> bool" where
  "on_spine cur (RCleanup a f d) = False"
| "on_spine cur (RScope a ts) =
     (a = cur \<or> (case ts of [] \<Rightarrow> False | t # rest \<Rightarrow> on_spine cur t))"

subsection \<open>Sequences of pushes, pops, registrations and commits\<close>

text \<open>
  A client working under the resource list \<open>top_rl\<close>: \<open>Push\<close> is \<open>reslist_push_new\<close>,
  \<open>Pop\<close> is \<open>reslist_pop_nodestroy\<close> (of a resource list pushed by the sequence, not
  of \<open>top_rl\<close>), \<open>Register\<close> is \<open>cleanup_allocate\<close>, and \<open>Commit k f d\<close> is
  \<open>cleanup_commit\<close> on the record of the \<open>k\<close>-th registration. A run carries the state
  and the records registered so far; it is \<open>None\<close> when a call does not return.
\<close>

datatype op = Push | Pop | Register | Commit nat cleanupfn fndata

fun run_op :: "nat \<Rightarrow> op \<Rightarrow> state \<times> nat list \<Rightarrow> (state \<times> nat list) option" where
  "run_op top_rl Push (s, regs) =
     (case reslist_push_new s of Ret rl s' \<Rightarrow> Some (s', regs) | _ \<Rightarrow> None)"
| "run_op top_rl Pop (s, regs) =
     (if current_reslist s = Some top_rl then None
      else case reslist_pop_nodestroy s of Ret u s' \<Rightarrow> Some (s', regs) | _ \<Rightarrow> None)"
| "run_op top_rl Register (s, regs) =
     (case cleanup_allocate s of Ret cl s' \<Rightarrow> Some (s', regs @ [cl]) | _ \<Rightarrow> None)"
| "run_op top_rl (Commit k f d) (s, regs) =
     (if k < length regs
      then case cleanup_commit (regs ! k) (Some f) d s of
             Ret u s' \<Rightarrow> Some (s', regs)
           | _ \<Rightarrow> None
      else None)"

fun run_ops :: "nat \<Rightarrow> op list \<Rightarrow> state \<times> nat list \<Rightarrow> (state \<times> nat list) option" where
  "run_ops top_rl [] x = Some x"
| "run_ops top_rl (c # cs) x = (case run_op top_rl c x of None \<Rightarrow> None | Some y \<Rightarrow> run_ops top_rl cs y)"

text \<open>
  What a sequence leaves in the records, in the order of registration (\<open>registered\<close>),
  the calls that destruction owes for them: the records taken last registered first,
  each armed one giving the function and argument of its last commit
  (\<open>expected_calls\<close>); and the commits of a sequence in the order in which they were
  made (\<open>commit_order\<close>).
\<close>

fun registered ::
  "op list \<Rightarrow> (cleanupfn option \<times> fndata) list \<Rightarrow> (cleanupfn option \<times> fndata) list" where
  "registered [] rs = rs"
| "registered (Register # cs) rs = registered cs (rs @ [(None, 0)])"
| "registered (Commit k f d # cs) rs = registered cs (rs[k := (Some f, d)])"
| "registered (Push # cs) rs = registered cs rs"
| "registered (Pop # cs) rs = registered cs rs"

fun armed :: "(cleanupfn option \<times> fndata) list \<Rightarrow> (cleanupfn \<times> fndata) list" where
  "armed [] = []"
| "armed ((None, d) # rs) = armed rs"
| "armed ((Some f, d) # rs) = (f, d) # armed rs"

definition expected_calls :: "op list \<Rightarrow> (cleanupfn \<times> fndata) list" where
  "expected_calls cs = armed (rev (registered cs []))"

fun commit_order :: "op list \<Rightarrow> (cleanupfn \<times> fndata) list" where
  "commit_order [] = []"
| "commit_order (Commit k f d # cs) = (f, d) # commit_order cs"
| "commit_order (c # cs) = commit_order cs"

text \<open>
  \<open>tracks top_rl par n0 s regs rs t\<close>: the tree \<open>t\<close> with the root \<open>top_rl\<close> is what the
  state \<open>s\<close> holds under \<open>top_rl\<close>; its other objects are exactly those allocated from
  the address \<open>n0\<close> on, the current resource list is on its spine, and its cleanup
  records are those of \<open>regs\<close>, last registered first, holding \<open>rs\<close>.
\<close>

definition tracks ::
  "nat \<Rightarrow> nat option \<Rightarrow> nat \<Rightarrow> state \<Rightarrow> nat list \<Rightarrow> (cleanupfn option \<times> fndata) list \<Rightarrow>
   rtree \<Rightarrow> bool" where
  "tracks top_rl par n0 s regs rs t =
     (raddr t = top_rl \<and> scopes t \<noteq> [] \<and> rep s par t \<and> distinct (addrs t) \<and>
      (\<exists>cur. current_reslist s = Some cur \<and> on_spine cur t) \<and>
      recs t = rev (zip regs rs) \<and> length regs = length rs \<and>
      set (addrs t) = insert top_rl {n0 ..< length (nodes s)} \<and>
      top_rl < n0 \<and> n0 \<le> length (nodes s) \<and>
      (\<forall>p. par = Some p \<longrightarrow> p < n0 \<and> p \<noteq> top_rl \<and> (\<exists>pp c. node_at s p = Some (Reslist pp c))))"

text \<open>
  The cleanup calls made by destroying \<open>top_rl\<close> after the sequence \<open>cs\<close> has run from
  \<open>s0\<close>, in the order in which they are made.
\<close>

definition destroy_log :: "nat \<Rightarrow> op list \<Rightarrow> state \<Rightarrow> (cleanupfn \<times> fndata) list option" where
  "destroy_log top_rl cs s0 =
     (case run_ops top_rl cs (s0, []) of
        None \<Rightarrow> None
      | Some (s, regs) \<Rightarrow>
          (case reslist_destroy top_rl s of
             Ret u s' \<Rightarrow> Some (drop (length (invoked s)) (invoked s'))
           | _ \<Rightarrow> None))"



text \<open>
  \<open>succeeds k s\<close>: the next \<open>k\<close> answers of the environment are successes (an
  exhausted script answers with success).
\<close>

definition succeeds :: "nat \<Rightarrow> state \<Rightarrow> bool" where
  "succeeds k s = list_all (\<lambda>r. r = Succeed) (take k (sched s))"

text \<open>
  What a raise has left in the error-info slot \<open>e\<close> when control is back at the
  handler: the error code and the message.
\<close>

definition delivered :: "nat \<Rightarrow> 'a outcome \<Rightarrow> (int \<times> strptr) option" where
  "delivered e m =
     (case m of Jump w s' \<Rightarrow> Some (ei_err (eis s' e), ei_msg (eis s' e)) | _ \<Rightarrow> None)"

text \<open>\<open>starved\<close> is \<open>guarded\<close> when the next allocation is going to fail.\<close>

definition starved :: state where
  "starved = guarded\<lparr>sched := [Fail ENOMEM]\<rparr>"

section \<open>Termination\<close>


lemma links_weight: "links s = sum_list (map weight (nodes s))"
  unfolding links_def weight_def ..

lemma links_update:
  assumes "a < length (nodes s)"
  shows "links (s\<lparr>nodes := (nodes s)[a := v]\<rparr>) + weight (nodes s ! a) = links s + weight v"
proof -
  have "weight (nodes s ! a) \<le> sum_list (map weight (nodes s))"
    using assms by (simp add: member_le_sum_list)
  then show ?thesis
    using assms by (simp add: links_weight map_update sum_list_update)
qed

lemma links_set_node:
  "node_at s a = Some (Reslist p c) \<Longrightarrow>
   links (set_node a (Reslist p' c') s) + length c = links s + length c'"
  using links_update [of a s "Some (Reslist p' c')"]
  by (auto simp: node_at_def set_node_def weight_def split: if_splits)

lemma links_free_node: "links (free_node a s) \<le> links s"
proof (cases "a < length (nodes s)")
  case True
  then show ?thesis
    using links_update [of a s None] by (simp add: free_node_def weight_def)
next
  case False
  then show ?thesis by (simp add: free_node_def links_def list_update_beyond)
qed

lemma links_nodes_cong: "nodes s' = nodes s \<Longrightarrow> links s' = links s"
  by (simp add: links_def)

lemma call_cleanupfn_nodes:
  "call_cleanupfn f d s = Ret u s' \<Longrightarrow> nodes s' = nodes s"
  by (auto simp: call_cleanupfn_def fd_cleanup_def free_block_def Let_def
           split: cleanupfn.splits if_splits)

lemma call_opt_nodes:
  "(case fn of None \<Rightarrow> Ret () s | Some f \<Rightarrow> call_cleanupfn f d s) = Ret u s' \<Longrightarrow>
   nodes s' = nodes s"
  by (auto split: option.splits dest: call_cleanupfn_nodes)

lemma list_remove_from_links:
  assumes "list_remove_from p a s = Some s'"
  shows "links s' \<le> links s"
proof -
  from assms obtain pp c where n: "node_at s p = Some (Reslist pp c)"
    and s': "s' = set_node p (Reslist pp (remove1 a c)) s"
    by (auto simp: list_remove_from_def split: option.splits resource.splits)
  have "length (remove1 a c) \<le> length c"
    by (simp add: length_remove1)
  with links_set_node [OF n, of pp "remove1 a c"] s' show ?thesis by simp
qed

lemma unlink_links:
  "(case parent of None \<Rightarrow> Some s | Some p \<Rightarrow> list_remove_from p rl s) = Some s1 \<Longrightarrow>
   links s1 \<le> links s"
  by (auto split: option.splits dest: list_remove_from_links)

lemma outcome_case_Ret:
  "((case m of Ret u s2 \<Rightarrow> k u s2 | Jump w s2 \<Rightarrow> Jump w s2 | Abort r \<Rightarrow> Abort r | Fault \<Rightarrow> Fault)
      = Ret v s') = (\<exists>u s2. m = Ret u s2 \<and> k u s2 = Ret v s')"
  by (cases m) auto

lemma destroy_links_dom:
  "reslist_destroy_destroy_contents_dom (Inl (rl, s)) \<Longrightarrow>
     (\<forall>u s'. reslist_destroy rl s = Ret u s' \<longrightarrow> links s' \<le> links s)"
  "reslist_destroy_destroy_contents_dom (Inr (rl2, t)) \<Longrightarrow>
     (\<forall>u s'. destroy_contents rl2 t = Ret u s' \<longrightarrow> links s' \<le> links t)"
proof (induction rl s and rl2 t rule: reslist_destroy_destroy_contents.pinduct)
  case (1 rl s)
  show ?case
  proof (intro allI impI)
    fix u s'
    assume r: "reslist_destroy rl s = Ret u s'"
    from r "1.hyps" obtain parent c s1 u2 s2 where
      n: "node_at s rl = Some (Reslist parent c)"
      and s1: "(case parent of None \<Rightarrow> Some s | Some p \<Rightarrow> list_remove_from p rl s) = Some s1"
      and d: "destroy_contents rl s1 = Ret u2 s2"
      and s': "s' = free_node rl s2"
      by (auto simp: reslist_destroy.psimps outcome_case_Ret
               split: option.splits resource.splits)
    have "links s1 \<le> links s"
      using s1 by (rule unlink_links)
    moreover have "links s2 \<le> links s1"
      using "1.IH" [OF n refl s1] d by blast
    moreover have "links s' \<le> links s2"
      using s' links_free_node by simp
    ultimately show "links s' \<le> links s" by linarith
  qed
next
  case (2 rl s)
  show ?case
  proof (intro allI impI)
    fix u s'
    assume r: "destroy_contents rl s = Ret u s'"
    from r "2.hyps" obtain parent c where
      n: "node_at s rl = Some (Reslist parent c)"
      by (auto simp: destroy_contents.psimps split: option.splits resource.splits)
    show "links s' \<le> links s"
    proof (cases c)
      case Nil
      with r n "2.hyps" show ?thesis by (simp add: destroy_contents.psimps)
    next
      case (Cons r0 rest)
      let ?s1 = "set_node rl (Reslist parent rest) s"
      have l1: "links ?s1 < links s"
        using links_set_node [OF n, of parent rest] Cons by simp
      show ?thesis
      proof (cases "node_at ?s1 r0")
        case None
        with r n Cons "2.hyps" show ?thesis
          by (simp add: destroy_contents.psimps Let_def)
      next
        case (Some x)
        show ?thesis
        proof (cases x)
          case (Reslist p c')
          let ?s1' = "set_node r0 (Reslist None c') ?s1"
          from r n Cons Some Reslist "2.hyps" obtain u2 s2 where
            d: "reslist_destroy r0 ?s1' = Ret u2 s2" and
            e: "destroy_contents rl s2 = Ret u s'"
            by (auto simp: destroy_contents.psimps Let_def outcome_case_Ret)
          have "links ?s1' = links ?s1"
            using links_set_node [of ?s1 r0 p c' None c'] Some Reslist by simp
          moreover have "links s2 \<le> links ?s1'"
            using "2.IH"(1) [OF n refl Cons refl Some Reslist] d by simp
          moreover have "links s' \<le> links s2"
            using "2.IH"(2) [OF n refl Cons refl Some Reslist d] e by blast
          ultimately show ?thesis using l1 by linarith
        next
          case (Cleanup fn d)
          from r n Cons Some Cleanup "2.hyps" obtain u2 s2 where
            c: "(case fn of None \<Rightarrow> Ret () ?s1 | Some f \<Rightarrow> call_cleanupfn f d ?s1) = Ret u2 s2" and
            e: "destroy_contents rl (free_node r0 s2) = Ret u s'"
            by (auto simp: destroy_contents.psimps Let_def outcome_case_Ret)
          have "nodes s2 = nodes ?s1"
            using c by (rule call_opt_nodes)
          then have "links s2 = links ?s1" by (rule links_nodes_cong)
          moreover have "links (free_node r0 s2) \<le> links s2" by (rule links_free_node)
          moreover have "links s' \<le> links (free_node r0 s2)"
            using "2.IH"(3) [OF n refl Cons refl Some Cleanup c] e by blast
          ultimately show ?thesis using l1 by linarith
        qed
      qed
    qed
  qed
qed

termination reslist_destroy
proof (relation "measure (\<lambda>x. case x of Inl (rl, s) \<Rightarrow> 2 * links s + 1 | Inr (rl, s) \<Rightarrow> 2 * links s)")
  show "wf (measure (\<lambda>x. case x of Inl (rl, s) \<Rightarrow> 2 * links s + 1 | Inr (rl, s) \<Rightarrow> 2 * links s))"
    by simp
next
  fix rl s x2 parent c s1
  assume "node_at s rl = Some x2" "x2 = Reslist parent c"
    "(case parent of None \<Rightarrow> Some s | Some p \<Rightarrow> list_remove_from p rl s) = Some s1"
  then have "links s1 \<le> links s"
    by (auto split: option.splits dest: list_remove_from_links)
  then show "(Inr (rl, s1), Inl (rl, s))
      \<in> measure (\<lambda>x. case x of Inl (rl, s) \<Rightarrow> 2 * links s + 1 | Inr (rl, s) \<Rightarrow> 2 * links s)"
    by simp
next
  fix rl s x2 parent c r0 rest s1 x2a p c'
  assume n: "node_at s rl = Some x2" "x2 = Reslist parent c" "c = r0 # rest"
    and s1: "s1 = set_node rl (Reslist parent rest) s"
    and m: "node_at s1 r0 = Some x2a" "x2a = Reslist p c'"
  have "links s1 < links s"
    using links_set_node [of s rl parent c parent rest] n s1 by simp
  moreover have "links (set_node r0 (Reslist None c') s1) = links s1"
    using links_set_node [of s1 r0 p c' None c'] m by simp
  ultimately show "(Inl (r0, set_node r0 (Reslist None c') s1), Inr (rl, s))
      \<in> measure (\<lambda>x. case x of Inl (rl, s) \<Rightarrow> 2 * links s + 1 | Inr (rl, s) \<Rightarrow> 2 * links s)"
    by simp
next
  fix rl s x2 parent c r0 rest s1 x2a p c' v s2
  assume n: "node_at s rl = Some x2" "x2 = Reslist parent c" "c = r0 # rest"
    and s1: "s1 = set_node rl (Reslist parent rest) s"
    and m: "node_at s1 r0 = Some x2a" "x2a = Reslist p c'"
    and d: "reslist_destroy r0 (set_node r0 (Reslist None c') s1) = Ret v s2"
    and dom: "reslist_destroy_destroy_contents_dom (Inl (r0, set_node r0 (Reslist None c') s1))"
  have "links s1 < links s"
    using links_set_node [of s rl parent c parent rest] n s1 by simp
  moreover have "links (set_node r0 (Reslist None c') s1) = links s1"
    using links_set_node [of s1 r0 p c' None c'] m by simp
  moreover have "links s2 \<le> links (set_node r0 (Reslist None c') s1)"
    using destroy_links_dom(1) [OF dom] d by blast
  ultimately show "(Inr (rl, s2), Inr (rl, s))
      \<in> measure (\<lambda>x. case x of Inl (rl, s) \<Rightarrow> 2 * links s + 1 | Inr (rl, s) \<Rightarrow> 2 * links s)"
    by simp
next
  fix rl s x2 parent c r0 rest s1 x2a fn d v s2
  assume n: "node_at s rl = Some x2" "x2 = Reslist parent c" "c = r0 # rest"
    and s1: "s1 = set_node rl (Reslist parent rest) s"
    and c: "(case fn of None \<Rightarrow> Ret () s1 | Some f \<Rightarrow> call_cleanupfn f d s1) = Ret v s2"
  have "links s1 < links s"
    using links_set_node [of s rl parent c parent rest] n s1 by simp
  moreover have "nodes s2 = nodes s1"
    using c by (rule call_opt_nodes)
  then have "links s2 = links s1" by (rule links_nodes_cong)
  moreover have "links (free_node r0 s2) \<le> links s2" by (rule links_free_node)
  ultimately show "(Inr (rl, free_node r0 s2), Inr (rl, s))
      \<in> measure (\<lambda>x. case x of Inl (rl, s) \<Rightarrow> 2 * links s + 1 | Inr (rl, s) \<Rightarrow> 2 * links s)"
    by simp
qed

termination show_base
  by (relation "measure (\<lambda>(b, n). nat n)") (auto simp: zdiv_int [symmetric] intro!: int_div_less_self)

lemma cstr_no_nul: "CHR 0x00 \<notin> set t \<Longrightarrow> cstr t = t"
  by (auto simp: cstr_def takeWhile_eq_all_conv)

lemma c_format_invalid_msg:
  "c_format ''invalid format string %.80s'' [AStr x]
     = Some (''invalid format string '' @ take 80 (cstr x))"
  by (simp add: c_format_def cstr_no_nul digit_val_def INT_MAX_def)

lemma c_format_percent_s: "c_format ''%s'' [AStr x] = Some (cstr x)"
  by (simp add: c_format_def cstr_no_nul)

lemma vsnprintf_cong:
  "libc_format s' = libc_format s \<Longrightarrow> vsnprintf s' fmt args = vsnprintf s fmt args"
  by (simp add: vsnprintf_def split: option.splits)

lemma vsnprintf_invalid_msg:
  "vsnprintf s ''invalid format string %.80s'' [AStr x]
     = Formatted (''invalid format string '' @ take 80 (cstr x))"
  by (simp add: vsnprintf_def c_format_invalid_msg INT_MAX_def)

lemma vsnprintf_percent_s:
  "vsnprintf s ''%s'' [AStr x]
     = (if int (length (cstr x)) \<le> INT_MAX then Formatted (cstr x) else Failed)"
  by (simp add: vsnprintf_def c_format_percent_s)

text \<open>
  What a returning \<open>xalloc\<close> leaves of the environment: its two calls of \<open>malloc\<close>
  have taken their answers from the script.
\<close>

lemma ext_call_env:
  "ext_call s = (r, s1) \<Longrightarrow>
   sched s1 = tl (sched s) \<and> prgname s1 = prgname s \<and> libc_format s1 = libc_format s"
  by (auto simp: ext_call_def split: list.splits)

lemma malloc_env:
  "malloc s = (b, s1) \<Longrightarrow>
   sched s1 = tl (sched s) \<and> prgname s1 = prgname s \<and> libc_format s1 = libc_format s"
  by (auto simp: malloc_def split: prod.splits ext_result.splits dest!: ext_call_env)

lemma insert_head_current_env:
  "insert_head_current r s = Some s1 \<Longrightarrow>
   sched s1 = sched s \<and> prgname s1 = prgname s \<and> libc_format s1 = libc_format s"
  by (auto simp: insert_head_current_def set_node_def split: option.splits resource.splits)

lemma outcome_case_Ret':
  "((case m of Ret v s1 \<Rightarrow> f v s1 | Jump w s1 \<Rightarrow> Jump w s1 | Abort r \<Rightarrow> Abort r
     | Fault \<Rightarrow> Fault) = Ret v' s') = (\<exists>v s1. m = Ret v s1 \<and> f v s1 = Ret v' s')"
  by (cases m) auto

lemma cleanup_allocate_env:
  assumes "cleanup_allocate s = Ret cl s1"
  shows "sched s1 = tl (sched s) \<and> prgname s1 = prgname s \<and> libc_format s1 = libc_format s"
proof -
  obtain b s0 where m: "malloc s = (b, s0)" by (cases "malloc s")
  from assms m have b: "b"
    by (cases b) (auto simp: cleanup_allocate_def die_oom_def destroy_and_jump_def Let_def
                       split: option.splits resource.splits outcome.splits)
  from assms m b obtain s3 where
    "insert_head_current (length (nodes s0))
       (s0\<lparr>nodes := nodes s0 @ [Some (Cleanup None 0)]\<rparr>) = Some s3" "s1 = s3"
    by (auto simp: cleanup_allocate_def Let_def split: option.splits)
  with insert_head_current_env [of "length (nodes s0)"
      "s0\<lparr>nodes := nodes s0 @ [Some (Cleanup None 0)]\<rparr>" s3] malloc_env [OF m]
  show ?thesis by simp
qed

lemma die_oom_never_Ret: "die_oom s \<noteq> Ret v s'"
  by (auto simp: die_oom_def Let_def split: option.splits resource.splits outcome.splits)

lemma xalloc_env:
  assumes "xalloc sz s = Ret mem s'"
  shows "sched s' = tl (tl (sched s)) \<and> prgname s' = prgname s \<and>
         libc_format s' = libc_format s"
proof -
  from assms obtain cl s1 where a: "cleanup_allocate s = Ret cl s1"
    and rest: "(case malloc s1 of
         (False, s2) \<Rightarrow> die_oom s2
       | (True, s2) \<Rightarrow>
           (let mem = length (blocks s2);
                s3 = s2\<lparr>blocks := blocks s2 @ [Some (Block sz Uninit)]\<rparr>
            in andthen (cleanup_commit cl (Some CF_free) (int mem) s3) (\<lambda>u s4. Ret mem s4)))
       = Ret mem s'"
    by (cases "cleanup_allocate s") (auto simp: xalloc_def)
  obtain b s2 where m: "malloc s1 = (b, s2)" by (cases "malloc s1")
  with rest have b: "b" by (cases b) (auto simp: die_oom_never_Ret)
  from rest m b have
    "cleanup_commit cl (Some CF_free) (int (length (blocks s2)))
       (s2\<lparr>blocks := blocks s2 @ [Some (Block sz Uninit)]\<rparr>) = Ret () s'"
    by (cases "cleanup_commit cl (Some CF_free) (int (length (blocks s2)))
                 (s2\<lparr>blocks := blocks s2 @ [Some (Block sz Uninit)]\<rparr>)")
       (auto simp: Let_def)
  then have "sched s' = sched s2 \<and> prgname s' = prgname s2 \<and> libc_format s' = libc_format s2"
    by (auto simp: cleanup_commit_def set_node_def split: option.splits resource.splits)
  with cleanup_allocate_env [OF a] malloc_env [OF m] show ?thesis by simp
qed

lemma store_block_env:
  "store_block a c s = Ret u s' \<Longrightarrow>
   sched s' = sched s \<and> prgname s' = prgname s \<and> libc_format s' = libc_format s"
  by (auto simp: store_block_def split: option.splits block.splits)

lemma xavprintf_env_dom:
  assumes dom: "xavprintf_diev_dom (Inl (fmt, args, s))"
    and r: "xavprintf fmt args s = Ret m s'"
  shows "sched s' = tl (tl (sched s)) \<and> prgname s' = prgname s \<and>
         libc_format s' = libc_format s"
proof (cases "vsnprintf s fmt args")
  case (Formatted out)
  let ?k = "\<lambda>buf s1. case vsnprintf s1 fmt args of
                  Formatted out2 \<Rightarrow>
                    andthen (store_block buf (CString (take (length out + 1 - 1) out2)) s1)
                      (\<lambda>u s2. Ret buf s2)
                | Failed \<Rightarrow> Ret buf s1
                | Undefined \<Rightarrow> Fault"
  have e: "xavprintf fmt args s = andthen (xalloc (length out + 1) s) ?k"
    by (simp only: xavprintf.psimps [OF dom] Formatted fmt_result.case Let_def)
  show ?thesis
  proof (cases "xalloc (length out + 1) s")
    case (Ret buf s1)
    note x = xalloc_env [OF Ret]
    from r e Ret have k: "?k buf s1 = Ret m s'" by simp
    show ?thesis
    proof (cases "vsnprintf s1 fmt args")
      case (Formatted out2)
      with k have "andthen (store_block buf (CString (take (length out + 1 - 1) out2)) s1)
                      (\<lambda>u s2. Ret buf s2) = Ret m s'" by simp
      then have st: "store_block buf (CString (take (length out + 1 - 1) out2)) s1 = Ret () s'"
        by (cases "store_block buf (CString (take (length out + 1 - 1) out2)) s1") auto
      from store_block_env [OF st] x show ?thesis by simp
    next
      case Failed
      with k x show ?thesis by simp
    next
      case Undefined
      with k show ?thesis by simp
    qed
  qed (use r e in simp_all)
next
  case Failed
  with r show ?thesis
    by (auto simp: xavprintf.psimps [OF dom] split: outcome.splits)
next
  case Undefined
  with r show ?thesis by (simp add: xavprintf.psimps [OF dom])
qed

lemma slot_env [simp]:
  "sched (set_err e x s) = sched s" "prgname (set_err e x s) = prgname s"
  "libc_format (set_err e x s) = libc_format s"
  "sched (set_msg e m s) = sched s" "prgname (set_msg e m s) = prgname s"
  "libc_format (set_msg e m s) = libc_format s"
  "sched (set_prgname_slot e m s) = sched s" "prgname (set_prgname_slot e m s) = prgname s"
  "libc_format (set_prgname_slot e m s) = libc_format s"
  by (simp_all add: set_err_def set_msg_def set_prgname_slot_def)

lemma vsnprintf_slot [simp]:
  "vsnprintf (set_err e x s) fmt args = vsnprintf s fmt args"
  "vsnprintf (set_msg e m s) fmt args = vsnprintf s fmt args"
  "vsnprintf (s\<lparr>current_reslist := p\<rparr>) fmt args = vsnprintf s fmt args"
  by (rule vsnprintf_cong, simp)+

termination xavprintf
proof (relation "measure (\<lambda>x. case x of
          Inl (fmt, args, s) \<Rightarrow>
            (if vsnprintf s ''%s'' [AStr (prgname s)] = Failed then 4 * length (sched s) else 0) +
            (if vsnprintf s fmt args = Failed then 2 else 0)
        | Inr (err, fmt, args, s) \<Rightarrow>
            (if vsnprintf s ''%s'' [AStr (prgname s)] = Failed then 4 * length (sched s) else 0) +
            (if vsnprintf s fmt args = Failed then 3 else 1))")
  show "wf (measure (\<lambda>x. case x of
          Inl (fmt, args, s) \<Rightarrow>
            (if vsnprintf s ''%s'' [AStr (prgname s)] = Failed then 4 * length (sched s) else 0) +
            (if vsnprintf s fmt args = Failed then 2 else 0)
        | Inr (err, fmt, args, s) \<Rightarrow>
            (if vsnprintf s ''%s'' [AStr (prgname s)] = Failed then 4 * length (sched s) else 0) +
            (if vsnprintf s fmt args = Failed then 3 else 1)))" by simp
next
  fix fmt args s
  assume "vsnprintf s fmt args = Failed"
  then show "(Inr (EINVAL, ''invalid format string %.80s'', [AStr fmt], s), Inl (fmt, args, s))
      \<in> measure (\<lambda>x. case x of
          Inl (fmt, args, s) \<Rightarrow>
            (if vsnprintf s ''%s'' [AStr (prgname s)] = Failed then 4 * length (sched s) else 0) +
            (if vsnprintf s fmt args = Failed then 2 else 0)
        | Inr (err, fmt, args, s) \<Rightarrow>
            (if vsnprintf s ''%s'' [AStr (prgname s)] = Failed then 4 * length (sched s) else 0) +
            (if vsnprintf s fmt args = Failed then 3 else 1))"
    by (simp add: vsnprintf_invalid_msg)
next
  fix err fmt args s x2 x2a x11 x12 x x2aa xa
  assume "x = s\<lparr>current_reslist := x11\<rparr>" "xa = set_err x2aa err x"
  then show "(Inl (fmt, args, xa), Inr (err, fmt, args, s))
      \<in> measure (\<lambda>x. case x of
          Inl (fmt, args, s) \<Rightarrow>
            (if vsnprintf s ''%s'' [AStr (prgname s)] = Failed then 4 * length (sched s) else 0) +
            (if vsnprintf s fmt args = Failed then 2 else 0)
        | Inr (err, fmt, args, s) \<Rightarrow>
            (if vsnprintf s ''%s'' [AStr (prgname s)] = Failed then 4 * length (sched s) else 0) +
            (if vsnprintf s fmt args = Failed then 3 else 1))"
    by simp
next
  fix err fmt args s x2 x2a x11 x12 x x2aa xa x11a x12a xb
  assume x: "x = s\<lparr>current_reslist := x11\<rparr>" and xa: "xa = set_err x2aa err x"
    and g: "\<not> (vsnprintf xa ''%s'' [AStr (prgname xa)] = Failed \<and> sched xa = [])"
    and r: "xavprintf fmt args xa = Ret x11a x12a"
    and xb: "xb = set_msg x2aa (SHeap x11a) x12a"
    and dom: "xavprintf_diev_dom (Inl (fmt, args, xa))"
  from xavprintf_env_dom [OF dom r] x xa xb
  have e: "sched xb = tl (tl (sched s))" "prgname xb = prgname s"
    "libc_format xb = libc_format s" by simp_all
  have v: "vsnprintf xb f a = vsnprintf s f a" for f a
    using e(3) by (rule vsnprintf_cong)
  show "(Inl (''%s'', [AStr (prgname xb)], xb), Inr (err, fmt, args, s))
      \<in> measure (\<lambda>x. case x of
          Inl (fmt, args, s) \<Rightarrow>
            (if vsnprintf s ''%s'' [AStr (prgname s)] = Failed then 4 * length (sched s) else 0) +
            (if vsnprintf s fmt args = Failed then 2 else 0)
        | Inr (err, fmt, args, s) \<Rightarrow>
            (if vsnprintf s ''%s'' [AStr (prgname s)] = Failed then 4 * length (sched s) else 0) +
            (if vsnprintf s fmt args = Failed then 3 else 1))"
  proof (cases "vsnprintf s ''%s'' [AStr (prgname s)] = Failed")
    case True
    with g x xa have "sched s \<noteq> []" by simp
    then have "length (tl (tl (sched s))) < length (sched s)" by (cases "sched s") auto
    with True show ?thesis by (simp add: v e)
  next
    case False
    then show ?thesis by (simp add: v e)
  qed
qed

declare reslist_destroy.simps [simp del] destroy_contents.simps [simp del] show_base.simps [simp del] xavprintf.simps [simp del] diev.simps [simp del]

section \<open>Calls that neither raise nor allocate\<close>

lemma ok_out_simps [simp]:
  "ok_out s (Ret v s') = (current_errh s' = current_errh s)"
  "ok_out s (Jump w s') =
     (current_errh s' = current_errh s \<and> (\<exists>h. current_errh s = Some h \<and> w = errh_where h))"
  "ok_out s (Abort r) = (r = NoHandler \<longrightarrow> current_errh s = None)"
  "ok_out s Fault = True"
  by (simp_all add: ok_out_def)

lemma ok_out_andthen:
  assumes "ok_out s m" and "\<And>v s1. m = Ret v s1 \<Longrightarrow> ok_out s1 (k v s1)"
  shows "ok_out s (andthen m k)"
proof (cases m)
  case (Ret v s1)
  with assms have "current_errh s1 = current_errh s" "ok_out s1 (k v s1)" by simp_all
  then show ?thesis using Ret by (auto simp: ok_out_def split: outcome.splits)
qed (use assms in simp_all)

lemma ok_out_state: "current_errh s1 = current_errh s \<Longrightarrow> ok_out s1 m \<Longrightarrow> ok_out s m"
  by (auto simp: ok_out_def split: outcome.splits)

lemma ok_out_case:
  assumes "ok_out s m" and "\<And>v s1. m = Ret v s1 \<Longrightarrow> ok_out s1 (k v s1)"
  shows "ok_out s (case m of Ret v s1 \<Rightarrow> k v s1 | Jump w s1 \<Rightarrow> Jump w s1
                     | Abort r \<Rightarrow> Abort r | Fault \<Rightarrow> Fault)"
proof (cases m)
  case (Ret v s1)
  with assms have "current_errh s1 = current_errh s" "ok_out s1 (k v s1)" by simp_all
  then show ?thesis using Ret by (auto simp: ok_out_def split: outcome.splits)
qed (use assms in simp_all)

lemma set_node_fields [simp]:
  "current_errh (set_node a r s) = current_errh s"
  "current_reslist (set_node a r s) = current_reslist s"
  "eis (set_node a r s) = eis s"
  "blocks (set_node a r s) = blocks s"
  "open_fds (set_node a r s) = open_fds s"
  "sched (set_node a r s) = sched s"
  "n_malloc (set_node a r s) = n_malloc s"
  "invoked (set_node a r s) = invoked s"
  "errno (set_node a r s) = errno s"
  "prgname (set_node a r s) = prgname s"
  "strerror (set_node a r s) = strerror s"
  "libc_format (set_node a r s) = libc_format s"
  by (simp_all add: set_node_def)

lemma free_node_fields [simp]:
  "current_errh (free_node a s) = current_errh s"
  "current_reslist (free_node a s) = current_reslist s"
  "eis (free_node a s) = eis s"
  "blocks (free_node a s) = blocks s"
  "open_fds (free_node a s) = open_fds s"
  "sched (free_node a s) = sched s"
  "n_malloc (free_node a s) = n_malloc s"
  "invoked (free_node a s) = invoked s"
  "errno (free_node a s) = errno s"
  "prgname (free_node a s) = prgname s"
  "strerror (free_node a s) = strerror s"
  "libc_format (free_node a s) = libc_format s"
  by (simp_all add: free_node_def)

lemma call_cleanupfn_ok: "ok_out s (call_cleanupfn f d s)"
  by (auto simp: call_cleanupfn_def fd_cleanup_def free_block_def Let_def split: cleanupfn.splits)

lemma list_remove_from_errh:
  "list_remove_from p a s = Some s1 \<Longrightarrow> current_errh s1 = current_errh s"
  by (auto simp: list_remove_from_def split: option.splits resource.splits)

lemma quiet_out_simps [simp]:
  "quiet_out s (Ret v s') = untouched s s'"
  "quiet_out s (Jump w s') = False"
  "quiet_out s (Abort r) = (r = BadDescriptor)"
  "quiet_out s Fault = True"
  by (simp_all add: quiet_out_def)

lemma untouched_refl [simp]: "untouched s s"
  by (simp add: untouched_def)

lemma untouched_trans: "untouched s s1 \<Longrightarrow> untouched s1 s2 \<Longrightarrow> untouched s s2"
  by (simp add: untouched_def)

lemma untouched_set_node [simp]: "untouched s (set_node a r s)"
  by (simp add: untouched_def)

lemma untouched_free_node [simp]: "untouched s (free_node a s)"
  by (simp add: untouched_def)

lemma quiet_out_state: "untouched s s1 \<Longrightarrow> quiet_out s1 m \<Longrightarrow> quiet_out s m"
  by (auto simp: quiet_out_def untouched_def split: outcome.splits)

lemma quiet_out_case:
  assumes "quiet_out s m" and "\<And>v s1. m = Ret v s1 \<Longrightarrow> quiet_out s1 (k v s1)"
  shows "quiet_out s (case m of Ret v s1 \<Rightarrow> k v s1 | Jump w s1 \<Rightarrow> Jump w s1
                     | Abort r \<Rightarrow> Abort r | Fault \<Rightarrow> Fault)"
proof (cases m)
  case (Ret v s1)
  with assms have "untouched s s1" "quiet_out s1 (k v s1)" by simp_all
  then show ?thesis using Ret by (simp add: quiet_out_state)
qed (use assms in simp_all)

lemma call_cleanupfn_quiet: "quiet_out s (call_cleanupfn f d s)"
  by (auto simp: call_cleanupfn_def fd_cleanup_def free_block_def Let_def untouched_def
           split: cleanupfn.splits)

lemma call_opt_quiet:
  "quiet_out s (case fn of None \<Rightarrow> Ret () s | Some f \<Rightarrow> call_cleanupfn f d s)"
  by (cases fn) (simp_all add: call_cleanupfn_quiet)

lemma list_remove_from_untouched:
  "list_remove_from p a s = Some s1 \<Longrightarrow> untouched s s1"
  by (auto simp: list_remove_from_def split: option.splits resource.splits)

lemma unlink_untouched:
  "(case parent of None \<Rightarrow> Some s | Some p \<Rightarrow> list_remove_from p rl s) = Some s1 \<Longrightarrow>
   untouched s s1"
  by (auto split: option.splits dest: list_remove_from_untouched)

lemma destroy_quiet_out:
  "quiet_out s (reslist_destroy rl s)"
  "quiet_out t (destroy_contents rl2 t)"
proof (induction rl s and rl2 t rule: reslist_destroy_destroy_contents.induct)
  case (1 rl s)
  show ?case
  proof (cases "node_at s rl")
    case None
    then show ?thesis by (simp add: reslist_destroy.simps)
  next
    case (Some x)
    show ?thesis
    proof (cases x)
      case (Cleanup fn d)
      with Some show ?thesis by (simp add: reslist_destroy.simps)
    next
      case (Reslist parent c)
      show ?thesis
      proof (cases "case parent of None \<Rightarrow> Some s | Some p \<Rightarrow> list_remove_from p rl s")
        case None
        with Some Reslist show ?thesis by (simp add: reslist_destroy.simps)
      next
        case (Some s1)
        note u = unlink_untouched [OF Some]
        have "quiet_out s1 (destroy_contents rl s1)"
          using "1.IH" [OF \<open>node_at s rl = Some x\<close> Reslist Some] .
        then have "quiet_out s1 (case destroy_contents rl s1 of
              Ret u s2 \<Rightarrow> Ret () (free_node rl s2) | Jump w s2 \<Rightarrow> Jump w s2
            | Abort r \<Rightarrow> Abort r | Fault \<Rightarrow> Fault)"
          by (rule quiet_out_case) simp
        with u show ?thesis
          using \<open>node_at s rl = Some x\<close> Reslist Some
          by (simp add: reslist_destroy.simps quiet_out_state)
      qed
    qed
  qed
next
  case (2 rl s)
  show ?case
  proof (cases "node_at s rl")
    case None
    then show ?thesis by (simp add: destroy_contents.simps)
  next
    case (Some x)
    show ?thesis
    proof (cases x)
      case (Cleanup fn d)
      with Some show ?thesis by (simp add: destroy_contents.simps)
    next
      case (Reslist parent c)
      show ?thesis
      proof (cases c)
        case Nil
        with Some Reslist show ?thesis by (simp add: destroy_contents.simps)
      next
        case (Cons r0 rest)
        let ?s1 = "set_node rl (Reslist parent rest) s"
        have u1: "untouched s ?s1" by simp
        show ?thesis
        proof (cases "node_at ?s1 r0")
          case None
          with Some Reslist Cons show ?thesis by (simp add: destroy_contents.simps)
        next
          case (Some y)
          note n1 = \<open>node_at s rl = Some x\<close>
          show ?thesis
          proof (cases y)
            case (Reslist p c')
            let ?s1' = "set_node r0 (Reslist None c') ?s1"
            have a: "quiet_out ?s1' (reslist_destroy r0 ?s1')"
              using "2.IH"(1) [OF n1 \<open>x = Reslist parent c\<close> Cons refl Some Reslist] .
            have "quiet_out ?s1' (case reslist_destroy r0 ?s1' of
                Ret u s2 \<Rightarrow> destroy_contents rl s2 | Jump w s2 \<Rightarrow> Jump w s2
              | Abort r \<Rightarrow> Abort r | Fault \<Rightarrow> Fault)"
              using a
            proof (rule quiet_out_case)
              fix v s2 assume "reslist_destroy r0 ?s1' = Ret v s2"
              then show "quiet_out s2 (destroy_contents rl s2)"
                using "2.IH"(2) [OF n1 \<open>x = Reslist parent c\<close> Cons refl Some Reslist] by simp
            qed
            then have "quiet_out s (case reslist_destroy r0 ?s1' of
                Ret u s2 \<Rightarrow> destroy_contents rl s2 | Jump w s2 \<Rightarrow> Jump w s2
              | Abort r \<Rightarrow> Abort r | Fault \<Rightarrow> Fault)"
              by (rule quiet_out_state [rotated]) (simp add: untouched_def)
            then show ?thesis
              using n1 \<open>x = Reslist parent c\<close> Cons Some Reslist
              by (simp add: destroy_contents.simps Let_def)
          next
            case (Cleanup fn d)
            let ?call = "case fn of None \<Rightarrow> Ret () ?s1 | Some f \<Rightarrow> call_cleanupfn f d ?s1"
            have "quiet_out ?s1 (case ?call of
                Ret u s2 \<Rightarrow> destroy_contents rl (free_node r0 s2) | Jump w s2 \<Rightarrow> Jump w s2
              | Abort r \<Rightarrow> Abort r | Fault \<Rightarrow> Fault)"
            proof (rule quiet_out_case)
              show "quiet_out ?s1 ?call" by (rule call_opt_quiet)
            next
              fix v s2 assume c: "?call = Ret v s2"
              have "quiet_out (free_node r0 s2) (destroy_contents rl (free_node r0 s2))"
                using "2.IH"(3) [OF n1 \<open>x = Reslist parent c\<close> Cons refl Some Cleanup c] by simp
              then show "quiet_out s2 (destroy_contents rl (free_node r0 s2))"
                by (rule quiet_out_state [rotated]) simp
            qed
            then have "quiet_out s (case ?call of
                Ret u s2 \<Rightarrow> destroy_contents rl (free_node r0 s2) | Jump w s2 \<Rightarrow> Jump w s2
              | Abort r \<Rightarrow> Abort r | Fault \<Rightarrow> Fault)"
              by (rule quiet_out_state [rotated]) (simp add: untouched_def)
            then show ?thesis
              using n1 \<open>x = Reslist parent c\<close> Cons Some Cleanup
              by (simp add: destroy_contents.simps Let_def)
          qed
        qed
      qed
    qed
  qed
qed

lemma quiet_ok: "quiet_out s m \<Longrightarrow> ok_out s m"
  by (auto simp: quiet_out_def ok_out_def untouched_def split: outcome.splits)

lemma reslist_destroy_ok: "ok_out s (reslist_destroy rl s)"
  by (rule quiet_ok) (rule destroy_quiet_out)

lemma malloc_errh: "malloc s = (b, s1) \<Longrightarrow> current_errh s1 = current_errh s"
  by (auto simp: malloc_def ext_call_def split: list.splits ext_result.splits)

lemma destroy_and_jump_ok:
  assumes "current_errh s = Some h"
  shows "ok_out s (destroy_and_jump h s)"
proof -
  have "quiet_out s (reslist_destroy (errh_rl h) s)" by (rule destroy_quiet_out)
  then show ?thesis
    using assms
    by (cases "reslist_destroy (errh_rl h) s")
       (auto simp: destroy_and_jump_def untouched_def)
qed

lemma die_oom_jump: 
  "die_oom s =
     (case current_errh s of
        None \<Rightarrow> Abort NoHandler
      | Some h \<Rightarrow>
          (case node_at s (errh_rl h) of
             Some (Reslist parent c) \<Rightarrow>
               destroy_and_jump h
                 (case errh_ei h of None \<Rightarrow> s\<lparr>current_reslist := parent\<rparr>
                  | Some e \<Rightarrow> set_oom e (s\<lparr>current_reslist := parent\<rparr>))
           | _ \<Rightarrow> Fault))"
  by (simp add: die_oom_def destroy_and_jump_def Let_def split: option.splits resource.splits)

lemma die_oom_ok: "ok_out s (die_oom s)"
proof (cases "current_errh s")
  case None
  then show ?thesis by (simp add: die_oom_jump)
next
  case (Some h)
  show ?thesis
  proof (cases "node_at s (errh_rl h)")
    case None
    with Some show ?thesis by (simp add: die_oom_jump)
  next
    case (Some x)
    show ?thesis
    proof (cases x)
      case (Cleanup fn d)
      with Some \<open>current_errh s = Some h\<close> show ?thesis by (simp add: die_oom_jump)
    next
      case (Reslist parent c)
      let ?s2 = "case errh_ei h of None \<Rightarrow> s\<lparr>current_reslist := parent\<rparr>
                  | Some e \<Rightarrow> set_oom e (s\<lparr>current_reslist := parent\<rparr>)"
      have e: "current_errh ?s2 = current_errh s"
        by (simp add: set_oom_def split: option.splits)
      then have "ok_out ?s2 (destroy_and_jump h ?s2)"
        using \<open>current_errh s = Some h\<close> by (intro destroy_and_jump_ok) simp
      then have "ok_out s (destroy_and_jump h ?s2)"
        using e by (rule ok_out_state [rotated])
      then show ?thesis
        using Some Reslist \<open>current_errh s = Some h\<close> by (simp add: die_oom_jump)
    qed
  qed
qed

lemma ok_out_malloc:
  assumes "\<And>s1. malloc s = (False, s1) \<Longrightarrow> ok_out s1 (f s1)"
    and "\<And>s1. malloc s = (True, s1) \<Longrightarrow> ok_out s1 (g s1)"
  shows "ok_out s (case malloc s of (False, s1) \<Rightarrow> f s1 | (True, s1) \<Rightarrow> g s1)"
proof (cases "malloc s")
  case (Pair b s1)
  then show ?thesis
    using assms malloc_errh [OF Pair]
    by (cases b) (auto intro: ok_out_state [rotated])
qed

lemma insert_head_current_errh:
  "insert_head_current r s = Some s1 \<Longrightarrow> current_errh s1 = current_errh s"
  by (auto simp: insert_head_current_def split: option.splits resource.splits)

lemma reslist_push_new_ok: "ok_out s (reslist_push_new s)"
  unfolding reslist_push_new_def
  by (rule ok_out_malloc)
     (auto simp: die_oom_ok Let_def split: option.splits dest: insert_head_current_errh)

lemma cleanup_allocate_ok: "ok_out s (cleanup_allocate s)"
  unfolding cleanup_allocate_def
  by (rule ok_out_malloc)
     (auto simp: die_oom_ok Let_def split: option.splits dest: insert_head_current_errh)

lemma cleanup_commit_ok: "ok_out s (cleanup_commit cl fn d s)"
  by (auto simp: cleanup_commit_def split: option.splits resource.splits)

lemma cleanup_commit_close_fd_ok: "ok_out s (cleanup_commit_close_fd cl fd s)"
  by (simp add: cleanup_commit_close_fd_def cleanup_commit_ok)

lemma reslist_pop_nodestroy_ok: "ok_out s (reslist_pop_nodestroy s)"
  by (auto simp: reslist_pop_nodestroy_def split: option.splits resource.splits)

lemma reslist_cleanup_local_ok: "ok_out s (reslist_cleanup_local rl s)"
proof -
  have "ok_out (s\<lparr>current_reslist := p\<rparr>) (reslist_destroy rl (s\<lparr>current_reslist := p\<rparr>))" for p
    by (rule reslist_destroy_ok)
  then have "ok_out s (reslist_destroy rl (s\<lparr>current_reslist := p\<rparr>))" for p
    by (rule ok_out_state [rotated]) simp
  then show ?thesis
    by (auto simp: reslist_cleanup_local_def split: option.splits resource.splits)
qed

lemma store_block_ok: "ok_out s (store_block a c s)"
  by (auto simp: store_block_def split: option.splits block.splits)

lemma xalloc_ok: "ok_out s (xalloc sz s)"
  unfolding xalloc_def
proof (rule ok_out_andthen [OF cleanup_allocate_ok])
  fix cl s1
  show "ok_out s1 (case malloc s1 of (False, s2) \<Rightarrow> die_oom s2
      | (True, s2) \<Rightarrow>
          let mem = length (blocks s2);
              s3 = s2\<lparr>blocks := blocks s2 @ [Some (Block sz Uninit)]\<rparr>
          in andthen (cleanup_commit cl (Some CF_free) (int mem) s3) (\<lambda>u. Ret mem))"
  proof (rule ok_out_malloc)
    fix s2 :: state
    show "ok_out s2 (die_oom s2)" by (rule die_oom_ok)
  next
    fix s2 :: state
    let ?s3 = "s2\<lparr>blocks := blocks s2 @ [Some (Block sz Uninit)]\<rparr>"
    have "ok_out ?s3 (andthen (cleanup_commit cl (Some CF_free) (int (length (blocks s2))) ?s3)
                        (\<lambda>u. Ret (length (blocks s2))))"
      by (rule ok_out_andthen [OF cleanup_commit_ok]) simp
    then show "ok_out s2 (let mem = length (blocks s2); s3 = ?s3
          in andthen (cleanup_commit cl (Some CF_free) (int mem) s3) (\<lambda>u. Ret mem))"
      unfolding Let_def by (rule ok_out_state [rotated]) simp
  qed
qed

lemma xcalloc_ok: "ok_out s (xcalloc sz s)"
  unfolding xcalloc_def
  by (intro ok_out_andthen xalloc_ok store_block_ok) simp

section \<open>The handler discipline of the raising calls\<close>

lemma slot_fields [simp]:
  "current_errh (set_err e err s) = current_errh s"
  "current_errh (set_msg e m s) = current_errh s"
  "current_errh (set_prgname_slot e p s) = current_errh s"
  "current_errh (set_oom e s) = current_errh s"
  "nodes (set_err e err s) = nodes s"
  "nodes (set_msg e m s) = nodes s"
  "nodes (set_prgname_slot e p s) = nodes s"
  "nodes (set_oom e s) = nodes s"
  by (simp_all add: set_err_def set_msg_def set_prgname_slot_def set_oom_def)

lemma destroy_and_jump_ok':
  "current_errh s1 = current_errh s \<Longrightarrow> current_errh s = Some h \<Longrightarrow>
   ok_out s (destroy_and_jump h s1)"
  by (rule ok_out_state [rotated], rule destroy_and_jump_ok) simp_all

lemma xavprintf_diev_ok:
  "ok_out s (xavprintf fmt args s)"
  "ok_out t (diev err fmt2 args2 t)"
proof (induction fmt args s and err fmt2 args2 t rule: xavprintf_diev.induct)
  case (1 fmt args s)
  show ?case
  proof (cases "vsnprintf s fmt args")
    case Failed
    from "1.IH" [OF Failed] show ?thesis
      by (subst xavprintf.simps) (auto simp: Failed ok_out_def split: outcome.splits)
  next
    case Undefined
    then show ?thesis by (subst xavprintf.simps) simp
  next
    case (Formatted out)
    have "ok_out s1 (case vsnprintf s1 fmt args of
            Formatted out2 \<Rightarrow>
              andthen (store_block buf (CString (take (length out + 1 - 1) out2)) s1)
                (\<lambda>u s2. Ret buf s2)
          | Failed \<Rightarrow> Ret buf s1
          | Undefined \<Rightarrow> Fault)" for buf s1
    proof (cases "vsnprintf s1 fmt args")
      case (Formatted out2)
      have "ok_out s1 (andthen (store_block buf (CString (take (length out + 1 - 1) out2)) s1)
                (\<lambda>u s2. Ret buf s2))"
        by (intro ok_out_andthen store_block_ok) simp
      with Formatted show ?thesis by simp
    qed simp_all
    then have "ok_out s (andthen (xalloc (length out + 1) s) (\<lambda>buf s1.
            case vsnprintf s1 fmt args of
              Formatted out2 \<Rightarrow>
                andthen (store_block buf (CString (take (length out + 1 - 1) out2)) s1)
                  (\<lambda>u s2. Ret buf s2)
            | Failed \<Rightarrow> Ret buf s1
            | Undefined \<Rightarrow> Fault))"
      by (intro ok_out_andthen xalloc_ok)
    then show ?thesis
      by (subst xavprintf.simps) (simp only: Formatted fmt_result.case Let_def)
  qed
next
  case (2 err fmt args s)
  show ?case
  proof (cases "current_errh s")
    case None
    then show ?thesis by (subst diev.simps) simp
  next
    case (Some h)
    note h = Some
    show ?thesis
    proof (cases "node_at s (errh_rl h)")
      case None
      with h show ?thesis by (subst diev.simps) simp
    next
      case (Some x)
      note x = Some
      show ?thesis
      proof (cases x)
        case (Cleanup fn d)
        with h x show ?thesis by (subst diev.simps) simp
      next
        case (Reslist parent c)
        let ?s1 = "s\<lparr>current_reslist := parent\<rparr>"
        show ?thesis
        proof (cases "errh_ei h")
          case None
          have "ok_out s (destroy_and_jump h ?s1)"
            by (rule destroy_and_jump_ok') (simp_all add: h)
          with h x Reslist None show ?thesis by (subst diev.simps) simp
        next
          case (Some e)
          let ?s2 = "set_err e err ?s1"
          show ?thesis
          proof (cases "ei_want_msg (eis ?s2 e)")
            case False
            have "ok_out s (destroy_and_jump h ?s2)"
              by (rule destroy_and_jump_ok') (simp_all add: h)
            with h x Reslist Some False show ?thesis
              by (subst diev.simps) (simp add: Let_def)
          next
            case True
            note want = True
            show ?thesis
            proof (cases "vsnprintf ?s2 ''%s'' [AStr (prgname ?s2)] = Failed \<and> sched ?s2 = []")
            case True
            with h x Reslist Some want show ?thesis
              by (subst diev.simps) (simp add: Let_def)
            next
            case False
            note ng = False
            let ?inner = "\<lambda>m s3. case xavprintf ''%s'' [AStr (prgname (set_msg e (SHeap m) s3))]
                                   (set_msg e (SHeap m) s3) of
                  Ret p s5 \<Rightarrow> destroy_and_jump h (set_prgname_slot e (SHeap p) s5)
                | Jump w s5 \<Rightarrow> Jump w s5 | Abort r \<Rightarrow> Abort r | Fault \<Rightarrow> Fault"
            have first: "ok_out ?s2 (xavprintf fmt args ?s2)"
              using "2.IH"(1) [OF h x Reslist refl Some refl want ng] .
            have "ok_out ?s2 (case xavprintf fmt args ?s2 of
                  Ret m s3 \<Rightarrow> ?inner m s3
                | Jump w s3 \<Rightarrow> Jump w s3 | Abort r \<Rightarrow> Abort r | Fault \<Rightarrow> Fault)"
              using first
            proof (rule ok_out_case)
              fix m s3
              assume r: "xavprintf fmt args ?s2 = Ret m s3"
              let ?s4 = "set_msg e (SHeap m) s3"
              from first r have e3: "current_errh s3 = Some h" by (simp add: h)
              have "ok_out ?s4 (xavprintf ''%s'' [AStr (prgname ?s4)] ?s4)"
                using "2.IH"(2) [OF h x Reslist refl Some refl want ng r refl] .
              then have "ok_out ?s4 (?inner m s3)"
              proof (rule ok_out_case)
                fix p s5
                assume "xavprintf ''%s'' [AStr (prgname ?s4)] ?s4 = Ret p s5"
                with \<open>ok_out ?s4 (xavprintf ''%s'' [AStr (prgname ?s4)] ?s4)\<close> e3
                have "current_errh s5 = Some h" by simp
                then show "ok_out s5 (destroy_and_jump h (set_prgname_slot e (SHeap p) s5))"
                  by (intro destroy_and_jump_ok') simp_all
              qed
              then show "ok_out s3 (?inner m s3)"
                by (rule ok_out_state [rotated]) simp
            qed
            then have "ok_out s (case xavprintf fmt args ?s2 of
                  Ret m s3 \<Rightarrow> ?inner m s3
                | Jump w s3 \<Rightarrow> Jump w s3 | Abort r \<Rightarrow> Abort r | Fault \<Rightarrow> Fault)"
              by (rule ok_out_state [rotated]) simp
            with h x Reslist Some want ng show ?thesis
              by (subst diev.simps) (simp add: Let_def cong: outcome.case_cong)
            qed
          qed
        qed
      qed
    qed
  qed
qed

lemma die_ok: "ok_out s (die err fmt args s)"
  using xavprintf_diev_ok(2) [of s err fmt args]
  by (cases "diev err fmt args s") (simp_all add: die_def noreturn_def)

text \<open>
  C6. A raising operation (\<open>die_oom\<close>, \<open>diev\<close>, \<open>die\<close>) called while no error
  handler is installed ends in \<open>abort()\<close>: it neither returns nor unwinds. With a
  handler installed the abort for want of a handler is not reached.
\<close>

theorem raise_without_handler_aborts:
  "(current_errh s = None \<longrightarrow>
      (die_oom s :: unit outcome) = Abort NoHandler \<and>
      diev err fmt args s = Abort NoHandler \<and>
      (die err fmt args s :: unit outcome) = Abort NoHandler) \<and>
   (current_errh s \<noteq> None \<longrightarrow>
      (die_oom s :: unit outcome) \<noteq> Abort NoHandler \<and>
      diev err fmt args s \<noteq> Abort NoHandler \<and>
      (die err fmt args s :: unit outcome) \<noteq> Abort NoHandler)"
proof (intro conjI impI)
  assume n: "current_errh s = None"
  show "(die_oom s :: unit outcome) = Abort NoHandler"
    using n by (simp add: die_oom_def)
  show d: "diev err fmt args s = Abort NoHandler"
    using n by (subst diev.simps) simp
  show "(die err fmt args s :: unit outcome) = Abort NoHandler"
    using d by (simp add: die_def noreturn_def)
next
  assume n: "current_errh s \<noteq> None"
  show "(die_oom s :: unit outcome) \<noteq> Abort NoHandler"
    using die_oom_ok [of s, where ?'a = unit] n by (auto simp: ok_out_def)
  show "diev err fmt args s \<noteq> Abort NoHandler"
    using xavprintf_diev_ok(2) [of s err fmt args] n by (auto simp: ok_out_def)
  show "(die err fmt args s :: unit outcome) \<noteq> Abort NoHandler"
    using die_ok [of s err fmt args, where ?'a = unit] n by (auto simp: ok_out_def)
qed


theorem raise_without_handler_aborts_witness:
  "current_errh boot = None \<and>
   (die_oom boot :: unit outcome) = Abort NoHandler \<and>
   diev EINVAL ''bad'' [] boot = Abort NoHandler \<and>
   (die EINVAL ''bad'' [] boot :: unit outcome) = Abort NoHandler \<and>
   current_errh guarded \<noteq> None \<and>
   (die_oom guarded :: unit outcome) \<noteq> Abort NoHandler \<and>
   diev EINVAL ''bad'' [] guarded \<noteq> Abort NoHandler \<and>
   (die EINVAL ''bad'' [] guarded :: unit outcome) \<noteq> Abort NoHandler"
  using raise_without_handler_aborts [of boot EINVAL "''bad''" "[]"]
    raise_without_handler_aborts [of guarded EINVAL "''bad''" "[]"]
  by (simp add: boot_def guarded_def)

section \<open>Code under a handler keeps the handler discipline\<close>

lemma ok_out_returning: "ok_out s m \<Longrightarrow> ok_out s (returning f m)"
  unfolding returning_def by (rule ok_out_andthen) simp_all

lemma xaprintf_ok: "ok_out s (xaprintf fmt args s)"
  by (simp add: xaprintf_def xavprintf_diev_ok)

lemma xstrdup_ok: "ok_out s (xstrdup str s)"
  by (simp add: xstrdup_def xaprintf_ok)

lemma die_errno_ok: "ok_out s (die_errno fmt args s)"
  unfolding die_errno_def Let_def
  by (rule ok_out_andthen [OF xavprintf_diev_ok(1)]) (simp add: die_ok split: option.splits)

lemma sys_open_errh: "sys_open p s = (fd, s1) \<Longrightarrow> current_errh s1 = current_errh s"
  by (auto simp: sys_open_def ext_call_def Let_def split: list.splits ext_result.splits)

lemma sys_pipe2_errh: "sys_pipe2 s = (r, s1) \<Longrightarrow> current_errh s1 = current_errh s"
  by (auto simp: sys_pipe2_def ext_call_def Let_def split: list.splits ext_result.splits)

lemma sys_dupfd_errh: "sys_dupfd fd s = (r, s1) \<Longrightarrow> current_errh s1 = current_errh s"
  by (auto simp: sys_dupfd_def ext_call_def Let_def split: list.splits ext_result.splits if_splits)

lemma xopen_ok: "ok_out s (xopen pathname s)"
  unfolding xopen_def
proof (rule ok_out_andthen [OF cleanup_allocate_ok])
  fix cl and s1 :: state
  obtain fd s2 where o: "sys_open pathname s1 = (fd, s2)" by (cases "sys_open pathname s1")
  have "ok_out s2 (if fd = - 1
          then die_errno (''open('' @ [CHR 0x22] @ ''%s'' @ [CHR 0x22] @ '')'') [AStr pathname] s2
          else andthen (cleanup_commit_close_fd cl fd s2) (\<lambda>u s3. Ret fd s3))"
  proof (cases "fd = - 1")
    case True
    then show ?thesis by (simp add: die_errno_ok)
  next
    case False
    have "ok_out s2 (andthen (cleanup_commit_close_fd cl fd s2) (\<lambda>u s3. Ret fd s3))"
      by (rule ok_out_andthen [OF cleanup_commit_close_fd_ok]) simp
    with False show ?thesis by simp
  qed
  then show "ok_out s1 (case sys_open pathname s1 of (fd, s2) \<Rightarrow>
         if fd = - 1
         then die_errno (''open('' @ [CHR 0x22] @ ''%s'' @ [CHR 0x22] @ '')'') [AStr pathname] s2
         else andthen (cleanup_commit_close_fd cl fd s2) (\<lambda>u s3. Ret fd s3))"
    unfolding o prod.case by (rule ok_out_state [OF sys_open_errh [OF o]])
qed

lemma xdup_ok: "ok_out s (xdup fd s)"
  unfolding xdup_def
proof (rule ok_out_andthen [OF cleanup_allocate_ok])
  fix cl and s1 :: state
  obtain newfd s2 where o: "sys_dupfd fd s1 = (newfd, s2)" by (cases "sys_dupfd fd s1")
  have "ok_out s2 (if newfd = - 1 then die_errno ''F_DUPFD_CLOEXEC'' [] s2
          else andthen (cleanup_commit_close_fd cl newfd s2) (\<lambda>u s3. Ret newfd s3))"
  proof (cases "newfd = - 1")
    case True
    then show ?thesis by (simp add: die_errno_ok)
  next
    case False
    have "ok_out s2 (andthen (cleanup_commit_close_fd cl newfd s2) (\<lambda>u s3. Ret newfd s3))"
      by (rule ok_out_andthen [OF cleanup_commit_close_fd_ok]) simp
    with False show ?thesis by simp
  qed
  then show "ok_out s1 (case sys_dupfd fd s1 of (newfd, s2) \<Rightarrow>
         if newfd = - 1 then die_errno ''F_DUPFD_CLOEXEC'' [] s2
         else andthen (cleanup_commit_close_fd cl newfd s2) (\<lambda>u s3. Ret newfd s3))"
    unfolding o prod.case by (rule ok_out_state [OF sys_dupfd_errh [OF o]])
qed

lemma xpipe_ok: "ok_out s (xpipe s)"
  unfolding xpipe_def
proof (rule ok_out_andthen [OF cleanup_allocate_ok], rule ok_out_andthen [OF cleanup_allocate_ok])
  fix cl0 cl1 and s2 :: state
  obtain r s3 where o: "sys_pipe2 s2 = (r, s3)" by (cases "sys_pipe2 s2")
  have "ok_out s3 (case r of None \<Rightarrow> die_errno ''pipe2'' [] s3
        | Some (fd0, fd1) \<Rightarrow>
            andthen (cleanup_commit_close_fd cl0 fd0 s3) (\<lambda>u s4.
              andthen (cleanup_commit_close_fd cl1 fd1 s4) (\<lambda>u s5. Ret (fd0, fd1) s5)))"
  proof (cases r)
    case None
    then show ?thesis by (simp add: die_errno_ok)
  next
    case (Some p)
    obtain fd0 fd1 where p: "p = (fd0, fd1)" by (cases p)
    have "ok_out s3 (andthen (cleanup_commit_close_fd cl0 fd0 s3) (\<lambda>u s4.
              andthen (cleanup_commit_close_fd cl1 fd1 s4) (\<lambda>u s5. Ret (fd0, fd1) s5)))"
      by (rule ok_out_andthen [OF cleanup_commit_close_fd_ok],
          rule ok_out_andthen [OF cleanup_commit_close_fd_ok]) simp
    with Some p show ?thesis by simp
  qed
  then show "ok_out s2 (case sys_pipe2 s2 of
         (None, s3) \<Rightarrow> die_errno ''pipe2'' [] s3
       | (Some (fd0, fd1), s3) \<Rightarrow>
           andthen (cleanup_commit_close_fd cl0 fd0 s3) (\<lambda>u s4.
             andthen (cleanup_commit_close_fd cl1 fd1 s4) (\<lambda>u s5. Ret (fd0, fd1) s5)))"
    unfolding o prod.case by (rule ok_out_state [OF sys_pipe2_errh [OF o]])
qed

lemma store_fdh_ok: "ok_out s (store_fdh_rl fdh rl s)" "ok_out s (store_fdh_fd fdh fd s)"
proof -
  show "ok_out s (store_fdh_rl fdh rl s)"
  proof (cases "block_at s fdh")
    case None
    then show ?thesis by (simp add: store_fdh_rl_def)
  next
    case (Some b)
    then show ?thesis by (cases b) (simp add: store_fdh_rl_def store_block_ok)
  qed
  show "ok_out s (store_fdh_fd fdh fd s)"
  proof (cases "block_at s fdh")
    case None
    then show ?thesis by (simp add: store_fdh_fd_def)
  next
    case (Some b)
    then show ?thesis by (cases b) (simp add: store_fdh_fd_def store_block_ok)
  qed
qed

lemma fdh_dup_ok: "ok_out s (fdh_dup fd s)"
  unfolding fdh_dup_def
  apply (rule ok_out_andthen [OF reslist_push_new_ok])
  apply (rule ok_out_andthen [OF xalloc_ok])
  apply (rule ok_out_andthen [OF store_fdh_ok(1)])
  apply (rule ok_out_andthen [OF xdup_ok])
  apply (rule ok_out_andthen [OF store_fdh_ok(2)])
  apply (rule ok_out_andthen [OF reslist_pop_nodestroy_ok])
  apply simp
  done

lemma fdh_destroy_ok: "ok_out s (fdh_destroy fdh s)"
  by (simp add: fdh_destroy_def reslist_destroy_ok
           split: option.split block.split content.split)

lemma do_call_ok: "ok_out s (do_call c s)"
  by (cases c)
     (simp_all add: ok_out_returning reslist_push_new_ok reslist_pop_nodestroy_ok
        reslist_cleanup_local_ok reslist_destroy_ok cleanup_allocate_ok cleanup_commit_ok
        cleanup_commit_close_fd_ok xavprintf_diev_ok xaprintf_ok xstrdup_ok xalloc_ok xcalloc_ok
        die_ok die_errno_ok xopen_ok xpipe_ok xdup_ok fdh_dup_ok fdh_destroy_ok)

lemma catch_error_ok:
  assumes body: "\<And>t. ok_out t (fn d t)"
  shows "ok_out s (catch_error fn d ei s)"
  unfolding catch_error_def Let_def
proof (rule ok_out_andthen [OF reslist_push_new_ok])
  fix rl s1
  assume p: "reslist_push_new s = Ret rl s1"
  let ?h = "\<lparr>errh_where = new_where (current_errh s), errh_rl = rl, errh_ei = ei\<rparr>"
  let ?s2 = "s1\<lparr>current_errh := Some ?h\<rparr>"
  have e1: "current_errh s1 = current_errh s"
    using reslist_push_new_ok [of s] p by simp
  show "ok_out s1 (case fn d ?s2 of
          Ret u s3 \<Rightarrow> Ret False (s3\<lparr>current_errh := current_errh s\<rparr>)
        | Jump w s3 \<Rightarrow>
            if w = errh_where ?h then Ret True (s3\<lparr>current_errh := current_errh s\<rparr>)
            else Jump w s3
        | Abort r \<Rightarrow> Abort r
        | Fault \<Rightarrow> Fault)"
    using body [of ?s2] e1 by (cases "fn d ?s2") auto
qed

lemma engine_code_ok: "engine_code f \<Longrightarrow> ok_out s (f s)"
proof (induction arbitrary: s rule: engine_code.induct)
  case (ec_call c)
  show ?case by (rule do_call_ok)
next
  case (ec_client upd f)
  then show ?case by (simp add: client_step_def)
next
  case (ec_seq m k)
  show ?case by (rule ok_out_andthen) (simp_all add: ec_seq.IH)
next
  case (ec_catch fn d ei)
  show ?case by (rule ok_out_returning, rule catch_error_ok) (rule ec_catch.IH)
qed

section \<open>Installing and restoring handlers\<close>

lemma catch_error_entered:
  assumes "reslist_push_new s = Ret rl s1"
  shows "catch_error fn d ei s =
     (case fn d (enter ei s rl s1) of
        Ret u s3 \<Rightarrow> Ret False (s3\<lparr>current_errh := current_errh s\<rparr>)
      | Jump w s3 \<Rightarrow>
          if w = new_where (current_errh s) then Ret True (s3\<lparr>current_errh := current_errh s\<rparr>)
          else Jump w s3
      | Abort r \<Rightarrow> Abort r
      | Fault \<Rightarrow> Fault)"
  using assms by (simp add: catch_error_def enter_def Let_def cong: outcome.case_cong)

lemma catch_error_not_entered:
  "reslist_push_new s = Jump w s1 \<Longrightarrow> catch_error fn d ei s = Jump w s1"
  "reslist_push_new s = Abort r \<Longrightarrow> catch_error fn d ei s = Abort r"
  "reslist_push_new s = Fault \<Longrightarrow> catch_error fn d ei s = Fault"
  by (simp_all add: catch_error_def Let_def)

lemma errh_depth_cong: "current_errh s' = current_errh s \<Longrightarrow> errh_depth s' = errh_depth s"
  by (simp add: errh_depth_def)

text \<open>
  C2. \<open>catch_error\<close> around code of the class \<open>engine_code\<close> (which contains nested
  \<open>catch_error\<close> to any depth): whenever the call returns, the handler that was
  current at the call is current again and the depth of the handler stack is what it
  was, and the result is true exactly when the body left by a jump. The only jump that
  leaves the call is the one of its own failed \<open>reslist_push_new\<close>, to the handler
  current at the call, before the new handler is installed. A jump out of the body
  goes to the jump buffer of the handler that this call installed, the nearest one.
\<close>

theorem catch_error_pairs_handlers:
  assumes body: "\<And>d. engine_code (fn d)"
  shows
    "(\<forall>b s'. catch_error fn d ei s = Ret b s' \<longrightarrow>
        current_errh s' = current_errh s \<and> errh_depth s' = errh_depth s \<and>
        (b \<longleftrightarrow> (\<exists>rl s1 w s3. reslist_push_new s = Ret rl s1 \<and>
                              fn d (enter ei s rl s1) = Jump w s3))) \<and>
     (\<forall>w s'. catch_error fn d ei s = Jump w s' \<longrightarrow>
        reslist_push_new s = Jump w s' \<and>
        current_errh s' = current_errh s \<and> errh_depth s' = errh_depth s \<and>
        (\<exists>h. current_errh s = Some h \<and> w = errh_where h)) \<and>
     (\<forall>rl s1 w s3. reslist_push_new s = Ret rl s1 \<longrightarrow>
        fn d (enter ei s rl s1) = Jump w s3 \<longrightarrow>
        current_errh (enter ei s rl s1) = Some \<lparr>errh_where = w, errh_rl = rl, errh_ei = ei\<rparr> \<and>
        catch_error fn d ei s = Ret True (s3\<lparr>current_errh := current_errh s\<rparr>)) \<and>
     (\<forall>rl s1 u s3. reslist_push_new s = Ret rl s1 \<longrightarrow>
        fn d (enter ei s rl s1) = Ret u s3 \<longrightarrow>
        catch_error fn d ei s = Ret False (s3\<lparr>current_errh := current_errh s\<rparr>))"
proof -
  have inside: "ok_out t (fn d t)" for t
    by (rule engine_code_ok [OF body])
  have push: "ok_out s (reslist_push_new s)"
    by (rule reslist_push_new_ok)
  have whole: "ok_out s (catch_error fn d ei s)"
    by (rule catch_error_ok) (rule inside)
  have nearest: "w = new_where (current_errh s)"
    if "fn d (enter ei s rl s1) = Jump w s3" for rl s1 w s3
    using inside [of "enter ei s rl s1"] that by (simp add: enter_def)
  show ?thesis
  proof (cases "reslist_push_new s")
    case (Ret rl s1)
    note unfold = catch_error_entered [OF Ret, of fn d ei]
    show ?thesis
    proof (cases "fn d (enter ei s rl s1)")
      case (Ret u s3)
      with unfold \<open>reslist_push_new s = Ret rl s1\<close> show ?thesis
        by (simp add: errh_depth_def)
    next
      case (Jump w s3)
      with unfold nearest [OF Jump] \<open>reslist_push_new s = Ret rl s1\<close> show ?thesis
        by (simp add: errh_depth_def enter_def)
    next
      case (Abort r)
      with unfold \<open>reslist_push_new s = Ret rl s1\<close> show ?thesis by simp
    next
      case Fault
      with unfold \<open>reslist_push_new s = Ret rl s1\<close> show ?thesis by simp
    qed
  next
    case (Jump w s1)
    with push catch_error_not_entered(1) [OF Jump, of fn d ei] show ?thesis
      by (auto simp: errh_depth_def)
  next
    case (Abort r)
    with catch_error_not_entered(2) [OF Abort, of fn d ei] show ?thesis by simp
  next
    case Fault
    with catch_error_not_entered(3) [OF Fault, of fn d ei] show ?thesis by simp
  qed
qed

lemma nested_raise_example:
  "case catch_error (\<lambda>d s. returning VBool
          (catch_error (\<lambda>d. do_call (C_die 5 ''boom %d'' [AInt 42])) VUnit None s))
        VUnit (Some 0) boot of
     Ret b s' \<Rightarrow> \<not> b \<and> current_errh s' = None \<and> ei_err (eis s' 0) = 0
   | _ \<Rightarrow> False"
  by code_simp

theorem catch_error_pairs_handlers_witness:
  "(\<forall>d. engine_code (\<lambda>s. returning VBool
          (catch_error (\<lambda>d. do_call (C_die 5 ''boom %d'' [AInt 42])) VUnit None s))) \<and>
   (\<exists>s'. catch_error (\<lambda>d s. returning VBool
          (catch_error (\<lambda>d. do_call (C_die 5 ''boom %d'' [AInt 42])) VUnit None s))
        VUnit (Some 0) boot = Ret False s' \<and>
      current_errh s' = current_errh boot \<and> errh_depth s' = errh_depth boot)"
proof -
  let ?inner = "\<lambda>d :: val. do_call (C_die 5 ''boom %d'' [AInt 42])"
  let ?outer = "\<lambda>(d :: val) s. returning VBool (catch_error ?inner VUnit None s)"
  have code: "engine_code (?outer d)" for d
    by (rule ec_catch) (rule ec_call)
  obtain s' where r: "catch_error ?outer VUnit (Some 0) boot = Ret False s'"
    using nested_raise_example
    by (cases "catch_error ?outer VUnit (Some 0) boot") auto
  from catch_error_pairs_handlers [of ?outer VUnit "Some 0" boot, OF code] r
  have "current_errh s' = current_errh boot \<and> errh_depth s' = errh_depth boot"
    by blast
  with code r show ?thesis by blast
qed

text \<open>
  C10. When the body returns, \<open>catch_error\<close> hands back the state of the body with
  the previous handler put back and nothing else changed: the resource list that it
  pushed for the handler is neither destroyed nor popped. If the body left it current,
  it is still current after the call, and it is not the resource list that was current
  before.
\<close>

theorem catch_error_leaves_scope_pushed:
  assumes cur: "current_reslist s = Some cur" "node_at s cur = Some (Reslist p c)"
    and push: "reslist_push_new s = Ret rl s1"
    and body: "fn d (enter ei s rl s1) = Ret u s3"
  shows "catch_error fn d ei s = Ret False (s3\<lparr>current_errh := current_errh s\<rparr>) \<and>
         current_reslist (enter ei s rl s1) = Some rl \<and>
         node_at (enter ei s rl s1) rl = Some (Reslist (Some cur) []) \<and>
         node_at (enter ei s rl s1) cur = Some (Reslist p (rl # c)) \<and>
         rl \<noteq> cur \<and>
         (current_reslist s3 = Some rl \<longrightarrow>
            current_reslist (s3\<lparr>current_errh := current_errh s\<rparr>) = Some rl \<and>
            current_reslist (s3\<lparr>current_errh := current_errh s\<rparr>) \<noteq> current_reslist s) \<and>
         node_at (s3\<lparr>current_errh := current_errh s\<rparr>) rl = node_at s3 rl"
proof -
  obtain b s0 where m: "malloc s = (b, s0)" by (cases "malloc s")
  have same: "nodes s0 = nodes s" "current_reslist s0 = current_reslist s"
    using m by (auto simp: malloc_def ext_call_def split: list.splits ext_result.splits)
  have b: "b" 
  proof (rule ccontr)
    assume "\<not> b"
    with m push have "die_oom s0 = Ret rl s1" by (simp add: reslist_push_new_def)
    moreover have "ok_out s0 (die_oom s0 :: nat outcome)" by (rule die_oom_ok)
    ultimately show False
      by (auto simp: die_oom_jump destroy_and_jump_def
               split: option.splits resource.splits outcome.splits
               elim!: andthen.elims)
  qed
  have lt: "cur < length (nodes s)"
    using cur(2) by (simp add: node_at_def split: if_splits)
  from push m b cur same lt have
    rl: "rl = length (nodes s)" and
    s1: "s1 = (set_node cur (Reslist p (rl # c))
                  (s0\<lparr>nodes := nodes s0 @ [Some (Reslist (Some cur) [])]\<rparr>))\<lparr>current_reslist := Some rl\<rparr>"
    by (auto simp: reslist_push_new_def Let_def insert_head_current_def node_at_def nth_append
             split: option.splits resource.splits if_splits)
  have neq: "rl \<noteq> cur" using rl lt by simp
  have "catch_error fn d ei s = Ret False (s3\<lparr>current_errh := current_errh s\<rparr>)"
    using catch_error_entered [OF push, of fn d ei] body by simp
  moreover have "current_reslist (enter ei s rl s1) = Some rl"
    using s1 by (simp add: enter_def)
  moreover have "node_at (enter ei s rl s1) rl = Some (Reslist (Some cur) [])"
    using s1 neq rl same lt by (simp add: enter_def node_at_def set_node_def nth_append)
  moreover have "node_at (enter ei s rl s1) cur = Some (Reslist p (rl # c))"
    using s1 neq rl same lt by (simp add: enter_def node_at_def set_node_def nth_append)
  moreover have "node_at (s3\<lparr>current_errh := current_errh s\<rparr>) rl = node_at s3 rl"
    by (simp add: node_at_def)
  ultimately show ?thesis
    using neq cur(1) by simp
qed

lemma body_returns_example:
  "case reslist_push_new boot of
     Ret rl s1 \<Rightarrow>
       (case do_call (C_xalloc 4) (enter (Some 0) boot rl s1) of
          Ret u s3 \<Rightarrow>
            current_reslist s3 = Some rl \<and> node_at s3 rl = Some (Reslist (Some 0) [2]) \<and>
            node_at s3 2 = Some (Cleanup (Some CF_free) 0) \<and>
            block_at s3 0 = Some (Block 4 Uninit) \<and> invoked s3 = []
        | _ \<Rightarrow> False)
   | _ \<Rightarrow> False"
  by code_simp

theorem catch_error_leaves_scope_pushed_witness:
  "\<exists>rl s1 u s3.
     current_reslist boot = Some 0 \<and> node_at boot 0 = Some (Reslist None []) \<and>
     reslist_push_new boot = Ret rl s1 \<and>
     do_call (C_xalloc 4) (enter (Some 0) boot rl s1) = Ret u s3 \<and>
     catch_error (\<lambda>d :: val. do_call (C_xalloc 4)) VUnit (Some 0) boot
       = Ret False (s3\<lparr>current_errh := current_errh boot\<rparr>) \<and>
     current_reslist (s3\<lparr>current_errh := current_errh boot\<rparr>) = Some rl \<and>
     current_reslist (s3\<lparr>current_errh := current_errh boot\<rparr>) \<noteq> current_reslist boot \<and>
     node_at (s3\<lparr>current_errh := current_errh boot\<rparr>) rl = Some (Reslist (Some 0) [2]) \<and>
     node_at s3 2 = Some (Cleanup (Some CF_free) 0) \<and>
     block_at s3 0 = Some (Block 4 Uninit) \<and> invoked s3 = []"
proof -
  have c: "current_reslist boot = Some 0" "node_at boot 0 = Some (Reslist None [])"
    by (simp_all add: boot_def node_at_def)
  from body_returns_example obtain rl s1 where
    p: "reslist_push_new boot = Ret rl s1"
    by (cases "reslist_push_new boot") auto
  from body_returns_example p obtain u s3 where
    b: "do_call (C_xalloc 4) (enter (Some 0) boot rl s1) = Ret u s3"
    by (cases "do_call (C_xalloc 4) (enter (Some 0) boot rl s1)") auto
  from body_returns_example p b have
    f: "current_reslist s3 = Some rl" "node_at s3 rl = Some (Reslist (Some 0) [2])"
       "node_at s3 2 = Some (Cleanup (Some CF_free) 0)"
       "block_at s3 0 = Some (Block 4 Uninit)" "invoked s3 = []"
    by simp_all
  from catch_error_leaves_scope_pushed
         [of boot 0 None "[]" rl s1 "\<lambda>d :: val. do_call (C_xalloc 4)" VUnit "Some 0" u s3,
          OF c p b] f
  show ?thesis
    using c p b by (intro exI [of _ rl] exI [of _ s1] exI [of _ u] exI [of _ s3]) simp
qed


section \<open>Destroying a resource list that holds a tree\<close>

lemma node_at_set_node:
  "node_at (set_node a r s) b = (if b = a \<and> a < length (nodes s) then Some r else node_at s b)"
  by (auto simp: node_at_def set_node_def)

lemma node_at_free_node:
  "node_at (free_node a s) b = (if b = a then None else node_at s b)"
  by (auto simp: node_at_def free_node_def)

lemma node_at_live: "node_at s a = Some r \<Longrightarrow> a < length (nodes s)"
  by (simp add: node_at_def split: if_splits)

lemma length_nodes_set_node [simp]: "length (nodes (set_node a r s)) = length (nodes s)"
  by (simp add: set_node_def)

lemma length_nodes_free_node [simp]: "length (nodes (free_node a s)) = length (nodes s)"
  by (simp add: free_node_def)

lemma node_at_nodes_cong: "nodes s' = nodes s \<Longrightarrow> node_at s' a = node_at s a"
  by (simp add: node_at_def)

lemma rep_frame:
  "(\<And>a. a \<in> set (addrs t) \<Longrightarrow> node_at s' a = node_at s a) \<Longrightarrow> rep s' par t = rep s par t"
proof (induction t arbitrary: par)
  case (RCleanup a f d)
  then show ?case by simp
next
  case (RScope a ts)
  have "rep s' (Some a) t = rep s (Some a) t" if "t \<in> set ts" for t
    using that RScope.prems by (intro RScope.IH) auto
  then show ?case using RScope.prems by auto
qed

lemma raddr_in_addrs: "raddr t \<in> set (addrs t)"
  by (cases t) simp_all

lemma call_cleanupfn_with_nodes:
  "call_cleanupfn f d (s\<lparr>nodes := N\<rparr>) =
     (case call_cleanupfn f d s of
        Ret u s' \<Rightarrow> Ret u (s'\<lparr>nodes := N\<rparr>) | Jump w s' \<Rightarrow> Jump w (s'\<lparr>nodes := N\<rparr>)
      | Abort r \<Rightarrow> Abort r | Fault \<Rightarrow> Fault)"
  by (cases f) (simp_all add: call_cleanupfn_def fd_cleanup_def free_block_def Let_def)

lemma run_actions_with_nodes:
  "run_actions as (s\<lparr>nodes := N\<rparr>) =
     (case run_actions as s of
        Ret u s' \<Rightarrow> Ret u (s'\<lparr>nodes := N\<rparr>) | Jump w s' \<Rightarrow> Jump w (s'\<lparr>nodes := N\<rparr>)
      | Abort r \<Rightarrow> Abort r | Fault \<Rightarrow> Fault)"
proof (induction as arbitrary: s)
  case Nil
  show ?case by simp
next
  case (Cons x as)
  obtain f d where x: "x = (f, d)" by (cases x)
  show ?case
    by (cases "call_cleanupfn f d s") (simp_all add: x call_cleanupfn_with_nodes Cons.IH)
qed

lemma run_actions_append:
  "run_actions (as @ bs) s = andthen (run_actions as s) (\<lambda>u. run_actions bs)"
proof (induction as arbitrary: s)
  case Nil
  show ?case by simp
next
  case (Cons x as)
  obtain f d where x: "x = (f, d)" by (cases x)
  show ?case
    by (cases "call_cleanupfn f d s") (simp_all add: x Cons.IH)
qed

lemma run_actions_nodes: "run_actions as s = Ret u s' \<Longrightarrow> nodes s' = nodes s"
proof (induction as arbitrary: s)
  case Nil
  then show ?case by simp
next
  case (Cons x as)
  obtain f d where x: "x = (f, d)" by (cases x)
  from Cons.prems obtain u1 s1 where c: "call_cleanupfn f d s = Ret u1 s1"
    and r: "run_actions as s1 = Ret u s'"
    by (cases "call_cleanupfn f d s") (simp_all add: x)
  from Cons.IH [OF r] call_cleanupfn_nodes [OF c] show ?case by simp
qed

lemma run_actions_quiet: "quiet_out s (run_actions as s)"
proof (induction as arbitrary: s)
  case Nil
  show ?case by simp
next
  case (Cons x as)
  obtain f d where x: "x = (f, d)" by (cases x)
  have "quiet_out s (call_cleanupfn f d s)" by (rule call_cleanupfn_quiet)
  then show ?case
    using Cons.IH
    by (cases "call_cleanupfn f d s") (auto simp: x intro: quiet_out_state)
qed

lemma length_sweep [simp]: "length (sweep D N) = length N"
  by (simp add: sweep_def)

lemma nth_sweep: "i < length N \<Longrightarrow> sweep D N ! i = (if i \<in> D then None else N ! i)"
  by (simp add: sweep_def)

lemma nth_update_if: "j < length xs \<Longrightarrow> xs[i := x] ! j = (if i = j then x else xs ! j)"
  by auto

lemma sweep_update_free:
  "(sweep D (N[b := x]))[a := None] = sweep (insert a D) (N[b := x])"
  by (rule nth_equalityI) (auto simp: nth_sweep nth_update_if)

lemma sweep_reset:
  assumes "rl \<notin> D" "a \<noteq> rl"
  shows "sweep D (N[rl := x, a := None, rl := y]) = sweep (insert a D) (N[rl := y])"
  using assms by (intro nth_equalityI) (auto simp: nth_sweep nth_update_if)

lemma sweep_sweep_reset:
  assumes "rl \<notin> D0" "a \<in> D0"
  shows "sweep D ((sweep D0 (N[rl := x, a := z]))[rl := y]) = sweep (D0 \<union> D) (N[rl := y])"
  using assms by (intro nth_equalityI) (auto simp: nth_sweep nth_update_if)

lemma sweep_final:
  "(sweep D (N[rl := x]))[rl := None] = sweep (insert rl D) N"
  by (rule nth_equalityI) (auto simp: nth_sweep nth_update_if)

lemma finish_with_nodes: "finish as N (s\<lparr>nodes := M\<rparr>) = finish as N s"
  using run_actions_quiet [of s as]
  by (cases "run_actions as s") (simp_all add: finish_def run_actions_with_nodes)

lemma finish_Nil: "finish [] N s = Ret () (s\<lparr>nodes := N\<rparr>)"
  by (simp add: finish_def)

lemma finish_Cons:
  "finish ((f, d) # as) N s = andthen (call_cleanupfn f d s) (\<lambda>u. finish as N)"
  by (cases "call_cleanupfn f d s") (simp_all add: finish_def)

lemma finish_append:
  "finish (as @ bs) N s = andthen (run_actions as s) (\<lambda>u. finish bs N)"
  by (cases "run_actions as s") (simp_all add: finish_def run_actions_append)

lemma set_node_as_update: "set_node a r s = s\<lparr>nodes := (nodes s)[a := Some r]\<rparr>"
  by (simp add: set_node_def)

lemma free_node_as_update: "free_node a s = s\<lparr>nodes := (nodes s)[a := None]\<rparr>"
  by (simp add: free_node_def)

lemma destroy_contents_Nil:
  "node_at s rl = Some (Reslist p []) \<Longrightarrow> destroy_contents rl s = Ret () s"
  by (simp add: destroy_contents.simps)

lemma destroy_contents_cleanup:
  assumes "node_at s rl = Some (Reslist p (a # rest))" "a \<noteq> rl"
    "node_at s a = Some (Cleanup f d)"
  shows "destroy_contents rl s =
     andthen (case f of Some g \<Rightarrow> call_cleanupfn g d (set_node rl (Reslist p rest) s)
                | None \<Rightarrow> Ret () (set_node rl (Reslist p rest) s))
       (\<lambda>u s2. destroy_contents rl (free_node a s2))"
proof -
  let ?c = "case f of Some g \<Rightarrow> call_cleanupfn g d (set_node rl (Reslist p rest) s)
                | None \<Rightarrow> Ret () (set_node rl (Reslist p rest) s)"
  have "destroy_contents rl s = (case ?c of
          Ret u s2 \<Rightarrow> destroy_contents rl (free_node a s2)
        | Jump w s2 \<Rightarrow> Jump w s2 | Abort r \<Rightarrow> Abort r | Fault \<Rightarrow> Fault)"
    using assms by (subst destroy_contents.simps) (simp add: node_at_set_node Let_def)
  then show ?thesis by (cases ?c) simp_all
qed

lemma destroy_contents_scope:
  assumes "node_at s rl = Some (Reslist p (a # rest))" "a \<noteq> rl"
    "node_at s a = Some (Reslist q c)"
  shows "destroy_contents rl s =
     andthen (reslist_destroy a (set_node a (Reslist None c) (set_node rl (Reslist p rest) s)))
       (\<lambda>u s2. destroy_contents rl s2)"
proof -
  let ?c = "reslist_destroy a (set_node a (Reslist None c) (set_node rl (Reslist p rest) s))"
  have "destroy_contents rl s = (case ?c of
          Ret u s2 \<Rightarrow> destroy_contents rl s2
        | Jump w s2 \<Rightarrow> Jump w s2 | Abort r \<Rightarrow> Abort r | Fault \<Rightarrow> Fault)"
    using assms by (subst destroy_contents.simps) (simp add: node_at_set_node Let_def)
  then show ?thesis by (cases ?c) simp_all
qed

lemma reslist_destroy_unlinked:
  assumes "node_at s rl = Some (Reslist par c)"
    "\<And>p. par = Some p \<Longrightarrow> list_remove_from p rl s \<noteq> None"
  shows "reslist_destroy rl s =
     andthen (destroy_contents rl (unlinked par rl s)) (\<lambda>u s2. Ret () (free_node rl s2))"
proof -
  let ?c = "destroy_contents rl (unlinked par rl s)"
  have "reslist_destroy rl s = (case ?c of
          Ret u s2 \<Rightarrow> Ret () (free_node rl s2)
        | Jump w s2 \<Rightarrow> Jump w s2 | Abort r \<Rightarrow> Abort r | Fault \<Rightarrow> Fault)"
    using assms
    by (subst reslist_destroy.simps) (auto simp: unlinked_def split: option.splits)
  then show ?thesis by (cases ?c) simp_all
qed

lemma sweep_empty: "sweep {} N = N"
  by (rule nth_equalityI) (simp_all add: nth_sweep)

lemma node_at_with_nodes:
  "node_at (s\<lparr>nodes := N\<rparr>) a = (if a < length N then N ! a else None)"
  by (simp add: node_at_def)

lemma andthen_assoc: "andthen (andthen m k) k' = andthen m (\<lambda>v s. andthen (k v s) k')"
  by (cases m) simp_all

lemma andthen_cong_Ret:
  "(\<And>v s. m = Ret v s \<Longrightarrow> k v s = k' v s) \<Longrightarrow> andthen m k = andthen m k'"
  by (cases m) simp_all

lemma destroy_contents_rep:
  assumes sub: "\<And>a ts0 s. RScope a ts0 \<in> set ts \<Longrightarrow> rep s None (RScope a ts0) \<Longrightarrow>
        distinct (addrs (RScope a ts0)) \<Longrightarrow>
        reslist_destroy a s =
          finish (acts (RScope a ts0)) (sweep (set (addrs (RScope a ts0))) (nodes s)) s"
    and n: "node_at s rl = Some (Reslist p (map raddr ts))"
    and kids: "\<forall>t \<in> set ts. rep s (Some rl) t"
    and dist: "distinct (rl # concat (map addrs ts))"
  shows "destroy_contents rl s =
           finish (concat (map acts ts))
             (sweep (set (concat (map addrs ts))) ((nodes s)[rl := Some (Reslist p [])])) s"
  using assms
proof (induction ts arbitrary: s)
  case Nil
  from Nil.prems(2) have "(nodes s)[rl := Some (Reslist p [])] = nodes s"
    by (simp add: node_at_def list_update_same_conv split: if_splits)
  with Nil.prems(2) show ?case
    by (simp add: destroy_contents_Nil finish_Nil sweep_empty)
next
  case (Cons t0 rest)
  let ?N = "nodes s"
  let ?X = "Some (Reslist p (map raddr rest))"
  let ?E = "Some (Reslist p [])"
  let ?Ar = "concat (map acts rest)"
  let ?Dr = "set (concat (map addrs rest))"
  note n = Cons.prems(2) and kids = Cons.prems(3) and dist = Cons.prems(4)
  have rl: "rl < length ?N" using n by (rule node_at_live)
  have rl_rest: "rl \<notin> ?Dr" and rl_t0: "rl \<notin> set (addrs t0)"
    using dist by auto
  have t0_rest: "set (addrs t0) \<inter> ?Dr = {}" using dist by auto
  have dist_rest: "distinct (rl # concat (map addrs rest))" using dist by auto
  have sub_rest: "\<And>a ts0 s. RScope a ts0 \<in> set rest \<Longrightarrow> rep s None (RScope a ts0) \<Longrightarrow>
        distinct (addrs (RScope a ts0)) \<Longrightarrow>
        reslist_destroy a s =
          finish (acts (RScope a ts0)) (sweep (set (addrs (RScope a ts0))) (nodes s)) s"
    using Cons.prems(1) by simp
  \<comment> \<open>the rest of the loop, from any state that still holds the rest of the contents\<close>
  have loop: "destroy_contents rl s' = finish ?Ar (sweep ?Dr ((nodes s')[rl := ?E])) s'"
    if "node_at s' rl = ?X" and "\<And>b. b \<in> ?Dr \<Longrightarrow> node_at s' b = node_at s b" for s'
  proof (rule Cons.IH [OF sub_rest _ _ dist_rest])
    show "node_at s' rl = Some (Reslist p (map raddr rest))" by (rule that)
    show "\<forall>t \<in> set rest. rep s' (Some rl) t"
    proof
      fix t assume t: "t \<in> set rest"
      have "rep s' (Some rl) t = rep s (Some rl) t"
        by (rule rep_frame) (use t that(2) in auto)
      with kids t show "rep s' (Some rl) t" by simp
    qed
  qed
  show ?case
  proof (cases t0)
    case (RCleanup a f d0)
    have a: "a \<noteq> rl" "a \<notin> ?Dr" using rl_t0 t0_rest RCleanup by auto
    have na: "node_at s a = Some (Cleanup f d0)" using kids RCleanup by simp
    let ?s1 = "set_node rl (Reslist p (map raddr rest)) s"
    have step: "destroy_contents rl s =
       andthen (case f of Some g \<Rightarrow> call_cleanupfn g d0 ?s1 | None \<Rightarrow> Ret () ?s1)
         (\<lambda>u s2. destroy_contents rl (free_node a s2))"
      using n a(1) na RCleanup by (intro destroy_contents_cleanup) simp_all
    \<comment> \<open>what is left to do once the record is gone, from a state \<open>sc\<close> with the objects of \<open>s\<close>\<close>
    have after: "destroy_contents rl (free_node a (sc\<lparr>nodes := ?N[rl := ?X]\<rparr>)) =
          finish ?Ar (sweep (insert a ?Dr) (?N[rl := ?E])) sc" for sc :: state
    proof -
      let ?s' = "free_node a (sc\<lparr>nodes := ?N[rl := ?X]\<rparr>)"
      have s': "?s' = sc\<lparr>nodes := ?N[rl := ?X, a := None]\<rparr>"
        by (simp add: free_node_def)
      have "node_at ?s' rl = ?X"
        using rl a(1) by (simp add: s' node_at_with_nodes)
      moreover have "node_at ?s' b = node_at s b" if "b \<in> ?Dr" for b
      proof -
        from that a(2) rl_rest have "b \<noteq> a" "b \<noteq> rl" by auto
        then show ?thesis by (simp add: s' node_at_with_nodes node_at_def)
      qed
      ultimately have "destroy_contents rl ?s' =
          finish ?Ar (sweep ?Dr ((nodes ?s')[rl := ?E])) ?s'"
        by (rule loop)
      also have "\<dots> = finish ?Ar (sweep ?Dr (?N[rl := ?X, a := None, rl := ?E])) sc"
        by (simp add: s' finish_with_nodes)
      also have "sweep ?Dr (?N[rl := ?X, a := None, rl := ?E]) = sweep (insert a ?Dr) (?N[rl := ?E])"
        using rl_rest a(1) by (rule sweep_reset)
      finally show ?thesis .
    qed
    have s1: "?s1 = s\<lparr>nodes := ?N[rl := ?X]\<rparr>" by (simp add: set_node_def)
    show ?thesis
    proof (cases f)
      case None
      have "destroy_contents rl s = destroy_contents rl (free_node a ?s1)"
        using step None by simp
      also have "\<dots> = finish ?Ar (sweep (insert a ?Dr) (?N[rl := ?E])) s"
        unfolding s1 by (rule after)
      finally show ?thesis using RCleanup None by simp
    next
      case (Some g)
      have q: "quiet_out s (call_cleanupfn g d0 s)" by (rule call_cleanupfn_quiet)
      show ?thesis
      proof (cases "call_cleanupfn g d0 s")
        case (Ret u sc)
        have "destroy_contents rl s = destroy_contents rl (free_node a (sc\<lparr>nodes := ?N[rl := ?X]\<rparr>))"
          using step Some Ret by (simp add: s1 call_cleanupfn_with_nodes)
        also have "\<dots> = finish ?Ar (sweep (insert a ?Dr) (?N[rl := ?E])) sc"
          by (rule after)
        finally show ?thesis using RCleanup Some Ret by (simp add: finish_Cons)
      next
        case (Jump w sc)
        with q show ?thesis by simp
      next
        case (Abort r)
        then show ?thesis
          using step Some RCleanup by (simp add: s1 call_cleanupfn_with_nodes finish_Cons)
      next
        case Fault
        then show ?thesis
          using step Some RCleanup by (simp add: s1 call_cleanupfn_with_nodes finish_Cons)
      qed
    qed
  next
    case (RScope a ts0)
    let ?A0 = "acts t0" and ?D0 = "set (addrs t0)"
    let ?Y = "Some (Reslist None (map raddr ts0))"
    have a: "a \<noteq> rl" "a \<in> ?D0" using rl_t0 RScope by auto
    have na: "node_at s a = Some (Reslist (Some rl) (map raddr ts0))"
      and k0: "\<forall>t \<in> set ts0. rep s (Some a) t"
      using kids RScope by simp_all
    have d0: "distinct (addrs t0)" using dist by simp
    let ?s1 = "set_node a (Reslist None (map raddr ts0))
                 (set_node rl (Reslist p (map raddr rest)) s)"
    have s1: "?s1 = s\<lparr>nodes := ?N[rl := ?X, a := ?Y]\<rparr>" by (simp add: set_node_def)
    have step: "destroy_contents rl s =
       andthen (reslist_destroy a ?s1) (\<lambda>u s2. destroy_contents rl s2)"
      using n a(1) na RScope by (intro destroy_contents_scope) simp_all
    have la: "a < length ?N" using na by (rule node_at_live)
    have "rep ?s1 None t0"
    proof -
      have "node_at ?s1 a = ?Y" using la by (simp add: s1 node_at_with_nodes)
      moreover have "rep ?s1 (Some a) t" if t: "t \<in> set ts0" for t
      proof -
        have "rep ?s1 (Some a) t = rep s (Some a) t"
        proof (rule rep_frame)
          fix b assume "b \<in> set (addrs t)"
          with t d0 rl_t0 RScope have "b \<noteq> a" "b \<noteq> rl" by auto
          then show "node_at ?s1 b = node_at s b"
            by (simp add: s1 node_at_with_nodes node_at_def)
        qed
        with k0 t show ?thesis by simp
      qed
      ultimately show ?thesis using RScope by simp
    qed
    then have "reslist_destroy a ?s1 = finish ?A0 (sweep ?D0 (nodes ?s1)) ?s1"
      using Cons.prems(1) [of a ts0 ?s1] d0 RScope by simp
    also have "\<dots> = finish ?A0 (sweep ?D0 (?N[rl := ?X, a := ?Y])) s"
      by (simp add: s1 finish_with_nodes)
    finally have child: "reslist_destroy a ?s1 = finish ?A0 (sweep ?D0 (?N[rl := ?X, a := ?Y])) s" .
    let ?M0 = "sweep ?D0 (?N[rl := ?X, a := ?Y])"
    have after: "destroy_contents rl (sa\<lparr>nodes := ?M0\<rparr>) =
          finish ?Ar (sweep (?D0 \<union> ?Dr) (?N[rl := ?E])) sa" for sa :: state
    proof -
      let ?s' = "sa\<lparr>nodes := ?M0\<rparr>"
      have "node_at ?s' rl = ?X"
        using rl a(1) rl_t0 by (simp add: node_at_with_nodes nth_sweep)
      moreover have "node_at ?s' b = node_at s b" if "b \<in> ?Dr" for b
      proof -
        from that t0_rest rl_rest a(2) have "b \<notin> ?D0" "b \<noteq> rl" "b \<noteq> a" by auto
        then show ?thesis by (simp add: node_at_with_nodes nth_sweep node_at_def)
      qed
      ultimately have "destroy_contents rl ?s' =
          finish ?Ar (sweep ?Dr ((nodes ?s')[rl := ?E])) ?s'"
        by (rule loop)
      also have "\<dots> = finish ?Ar (sweep ?Dr (?M0[rl := ?E])) sa"
        by (simp add: finish_with_nodes)
      also have "sweep ?Dr (?M0[rl := ?E]) = sweep (?D0 \<union> ?Dr) (?N[rl := ?E])"
        using rl_t0 a(2) by (rule sweep_sweep_reset)
      finally show ?thesis .
    qed
    have "destroy_contents rl s =
        andthen (run_actions ?A0 s) (\<lambda>u sa. destroy_contents rl (sa\<lparr>nodes := ?M0\<rparr>))"
      unfolding step child finish_def andthen_assoc by simp
    also have "\<dots> = andthen (run_actions ?A0 s)
        (\<lambda>u. finish ?Ar (sweep (?D0 \<union> ?Dr) (?N[rl := ?E])))"
      by (rule andthen_cong_Ret) (rule after)
    also have "\<dots> = finish (?A0 @ ?Ar) (sweep (?D0 \<union> ?Dr) (?N[rl := ?E])) s"
      by (simp add: finish_append)
    finally show ?thesis by simp
  qed
qed

lemma unlinked_nodes_only: "unlinked par rl s = s\<lparr>nodes := nodes (unlinked par rl s)\<rparr>"
  by (auto simp: unlinked_def list_remove_from_def set_node_def
           split: option.splits resource.splits)

lemma node_at_unlinked:
  "(\<And>p. par = Some p \<Longrightarrow> b \<noteq> p) \<Longrightarrow> node_at (unlinked par rl s) b = node_at s b"
  by (auto simp: unlinked_def list_remove_from_def node_at_set_node
           split: option.splits resource.splits)

lemma reslist_destroy_rep_cases:
  assumes "rep s par t" "distinct (addrs t)"
    "\<And>p. par = Some p \<Longrightarrow> p \<notin> set (addrs t) \<and> (\<exists>pp c. node_at s p = Some (Reslist pp c))"
  shows "case t of
           RCleanup a f d \<Rightarrow> True
         | RScope rl ts \<Rightarrow>
             reslist_destroy rl s =
               finish (acts t) (sweep (set (addrs t)) (nodes (unlinked par rl s))) s"
  using assms
proof (induction t arbitrary: s par)
  case (RCleanup a f d)
  show ?case by simp
next
  case (RScope rl ts)
  let ?t = "RScope rl ts"
  let ?su = "unlinked par rl s"
  let ?A = "concat (map acts ts)" and ?Dk = "set (concat (map addrs ts))"
  let ?E = "Some (Reslist par [])"
  from RScope.prems(1) have n: "node_at s rl = Some (Reslist par (map raddr ts))"
    and kids: "\<forall>t \<in> set ts. rep s (Some rl) t" by simp_all
  have par_out: "b \<noteq> p" if "par = Some p" "b \<in> set (addrs ?t)" for p b
    using RScope.prems(3) [OF that(1)] that(2) by auto
  have unl: "list_remove_from p rl s \<noteq> None" if "par = Some p" for p
    using RScope.prems(3) [OF that] by (auto simp: list_remove_from_def)
  have top: "reslist_destroy rl s =
      andthen (destroy_contents rl ?su) (\<lambda>u s2. Ret () (free_node rl s2))"
    using n unl by (rule reslist_destroy_unlinked)
  have sub: "reslist_destroy a s' =
          finish (acts (RScope a ts0)) (sweep (set (addrs (RScope a ts0))) (nodes s')) s'"
    if "RScope a ts0 \<in> set ts" "rep s' None (RScope a ts0)" "distinct (addrs (RScope a ts0))"
    for a ts0 s'
    using RScope.IH [OF that(1) that(2) that(3)] by (simp add: unlinked_def)
  have "destroy_contents rl ?su =
      finish ?A (sweep ?Dk ((nodes ?su)[rl := ?E])) ?su"
  proof (rule destroy_contents_rep [OF sub])
    show "node_at ?su rl = Some (Reslist par (map raddr ts))"
      using n par_out by (subst node_at_unlinked) auto
    show "\<forall>t \<in> set ts. rep ?su (Some rl) t"
    proof
      fix t assume t: "t \<in> set ts"
      have "rep ?su (Some rl) t = rep s (Some rl) t"
      proof (rule rep_frame)
        fix b assume "b \<in> set (addrs t)"
        with t have "b \<in> set (addrs ?t)" by auto
        then show "node_at ?su b = node_at s b"
          using par_out by (intro node_at_unlinked) auto
      qed
      with kids t show "rep ?su (Some rl) t" by simp
    qed
    show "distinct (rl # concat (map addrs ts))" using RScope.prems(2) by simp
  qed
  also have "\<dots> = finish ?A (sweep ?Dk ((nodes ?su)[rl := ?E])) s"
    by (subst unlinked_nodes_only) (rule finish_with_nodes)
  finally have eq: "destroy_contents rl ?su =
      finish ?A (sweep ?Dk ((nodes ?su)[rl := ?E])) s" .
  have "reslist_destroy rl s =
      andthen (finish ?A (sweep ?Dk ((nodes ?su)[rl := ?E])) s)
        (\<lambda>u s2. Ret () (free_node rl s2))"
    using top eq by simp
  also have "\<dots> = andthen (run_actions ?A s)
        (\<lambda>u sa. Ret () (sa\<lparr>nodes := (sweep ?Dk ((nodes ?su)[rl := ?E]))[rl := None]\<rparr>))"
    by (simp add: finish_def andthen_assoc free_node_def)
  also have "(sweep ?Dk ((nodes ?su)[rl := ?E]))[rl := None] = sweep (insert rl ?Dk) (nodes ?su)"
    by (rule sweep_final)
  finally show ?case by (simp add: finish_def)
qed

lemma reslist_destroy_rep:
  assumes "rep s par (RScope rl ts)" "distinct (addrs (RScope rl ts))"
    "\<And>p. par = Some p \<Longrightarrow>
       p \<notin> set (addrs (RScope rl ts)) \<and> (\<exists>pp c. node_at s p = Some (Reslist pp c))"
  shows "reslist_destroy rl s =
           finish (acts (RScope rl ts))
             (sweep (set (addrs (RScope rl ts))) (nodes (unlinked par rl s))) s"
  using reslist_destroy_rep_cases [OF assms] by simp


section \<open>Trees under construction\<close>

lemma malloc_result:
  "malloc s = (b, s0) \<Longrightarrow> s0 = s\<lparr>n_malloc := Suc (n_malloc s), sched := tl (sched s)\<rparr>"
  by (auto simp: malloc_def ext_call_def split: list.splits ext_result.splits)

lemma malloc_fields:
  assumes "malloc s = (b, s0)"
  shows "nodes s0 = nodes s" "blocks s0 = blocks s" "current_reslist s0 = current_reslist s"
    "current_errh s0 = current_errh s" "eis s0 = eis s" "open_fds s0 = open_fds s"
    "invoked s0 = invoked s" "errno s0 = errno s" "prgname s0 = prgname s"
    "strerror s0 = strerror s" "libc_format s0 = libc_format s"
    "n_malloc s0 = Suc (n_malloc s)" "sched s0 = tl (sched s)"
  using malloc_result [OF assms] by simp_all

lemma destroy_and_jump_not_Ret: "destroy_and_jump h s \<noteq> Ret v s'"
  by (cases "reslist_destroy (errh_rl h) s") (simp_all add: destroy_and_jump_def)

lemma die_oom_not_Ret: "die_oom s \<noteq> Ret v s'"
  by (simp add: die_oom_jump destroy_and_jump_not_Ret split: option.splits resource.splits)

lemma andthen_destroy_and_jump: "andthen (destroy_and_jump h s) k = destroy_and_jump h s"
  by (cases "reslist_destroy (errh_rl h) s") (simp_all add: destroy_and_jump_def)


lemma cleanup_allocate_Ret:
  assumes "cleanup_allocate s = Ret cl s'"
  obtains s0 cur p c where
    "malloc s = (True, s0)" "current_reslist s = Some cur" "cl = length (nodes s)"
    "node_at (s0\<lparr>nodes := nodes s @ [Some (Cleanup None 0)]\<rparr>) cur = Some (Reslist p c)"
    "s' = set_node cur (Reslist p (cl # c)) (s0\<lparr>nodes := nodes s @ [Some (Cleanup None 0)]\<rparr>)"
proof -
  obtain b s0 where m: "malloc s = (b, s0)" by (cases "malloc s")
  note f = malloc_fields [OF m]
  from assms m have b: b
    by (cases b) (simp_all add: cleanup_allocate_def die_oom_not_Ret)
  with assms m f that show ?thesis
    by (auto simp: cleanup_allocate_def insert_head_current_def Let_def
             split: option.splits resource.splits)
qed

lemma reslist_push_new_Ret:
  assumes "reslist_push_new s = Ret rl s'"
  obtains s0 cur p c where
    "malloc s = (True, s0)" "current_reslist s = Some cur" "rl = length (nodes s)"
    "node_at (s0\<lparr>nodes := nodes s @ [Some (Reslist (Some cur) [])]\<rparr>) cur = Some (Reslist p c)"
    "s' = (set_node cur (Reslist p (rl # c))
             (s0\<lparr>nodes := nodes s @ [Some (Reslist (Some cur) [])]\<rparr>))\<lparr>current_reslist := Some rl\<rparr>"
proof -
  obtain b s0 where m: "malloc s = (b, s0)" by (cases "malloc s")
  note f = malloc_fields [OF m]
  from assms m have b: b
    by (cases b) (simp_all add: reslist_push_new_def die_oom_not_Ret)
  with assms m f that show ?thesis
    by (auto simp: reslist_push_new_def insert_head_current_def Let_def
             split: option.splits resource.splits)
qed

lemma rep_live: "rep s par t \<Longrightarrow> a \<in> set (addrs t) \<Longrightarrow> a < length (nodes s)"
proof (induction t arbitrary: par)
  case (RCleanup b f d)
  then show ?case by (auto dest: node_at_live)
next
  case (RScope b ts)
  then show ?case by (auto dest: node_at_live)
qed

lemma raddr_tinsert [simp]: "raddr (tinsert cur n t) = raddr t"
  by (cases t) (auto split: list.splits)

lemma on_spine_scope: "on_spine cur t \<Longrightarrow> cur \<in> set (addrs t)"
  by (induction t) (auto split: list.splits)

lemma on_spine_is_scope: "on_spine cur t \<Longrightarrow> \<exists>a ts. t = RScope a ts"
  by (cases t) simp_all

lemma addrs_tinsert:
  "on_spine cur t \<Longrightarrow> set (addrs (tinsert cur n t)) = set (addrs t) \<union> set (addrs n)"
proof (induction t)
  case (RCleanup a f d)
  then show ?case by simp
next
  case (RScope a ts)
  show ?case
  proof (cases "a = cur")
    case True
    then show ?thesis by auto
  next
    case False
    with RScope.prems obtain t0 rest where ts: "ts = t0 # rest" and sp: "on_spine cur t0"
      by (cases ts) auto
    from RScope.IH [of t0] ts sp
    have "set (addrs (tinsert cur n t0)) = set (addrs t0) \<union> set (addrs n)" by simp
    with False ts show ?thesis by auto
  qed
qed

lemma distinct_tinsert:
  "on_spine cur t \<Longrightarrow> distinct (addrs t) \<Longrightarrow> distinct (addrs n) \<Longrightarrow>
   set (addrs t) \<inter> set (addrs n) = {} \<Longrightarrow> distinct (addrs (tinsert cur n t))"
proof (induction t)
  case (RCleanup a f d)
  then show ?case by simp
next
  case (RScope a ts)
  show ?case
  proof (cases "a = cur")
    case True
    with RScope.prems show ?thesis by auto
  next
    case False
    with RScope.prems(1) obtain t0 rest where ts: "ts = t0 # rest" and sp: "on_spine cur t0"
      by (cases ts) auto
    have "distinct (addrs (tinsert cur n t0))"
      using RScope.IH [of t0] ts sp RScope.prems by auto
    moreover have "set (addrs (tinsert cur n t0)) = set (addrs t0) \<union> set (addrs n)"
      using sp by (rule addrs_tinsert)
    ultimately show ?thesis
      using False ts RScope.prems by auto
  qed
qed

lemma recs_tinsert: "on_spine cur t \<Longrightarrow> recs (tinsert cur n t) = recs n @ recs t"
proof (induction t)
  case (RCleanup a f d)
  then show ?case by simp
next
  case (RScope a ts)
  show ?case
  proof (cases "a = cur")
    case True
    then show ?thesis by simp
  next
    case False
    with RScope.prems obtain t0 rest where ts: "ts = t0 # rest" and sp: "on_spine cur t0"
      by (cases ts) auto
    from RScope.IH [of t0] ts sp False show ?thesis by simp
  qed
qed

lemma acts_recs: "acts t = armed (map snd (recs t))"
proof (induction t)
  case (RCleanup a f d)
  show ?case by (cases f) simp_all
next
  case (RScope a ts)
  have armed_append: "armed (xs @ ys) = armed xs @ armed ys" for xs ys
    by (induction xs rule: armed.induct) simp_all
  have "concat (map acts ts) = armed (map snd (concat (map recs ts)))"
    using RScope.IH by (induction ts) (simp_all add: armed_append)
  then show ?case by simp
qed

lemma on_spine_tinsert_same: "on_spine cur t \<Longrightarrow> on_spine cur (tinsert cur n t)"
proof (induction t)
  case (RCleanup a f d)
  then show ?case by simp
next
  case (RScope a ts)
  show ?case
  proof (cases "a = cur")
    case True
    then show ?thesis by simp
  next
    case False
    with RScope.prems obtain t0 rest where ts: "ts = t0 # rest" and sp: "on_spine cur t0"
      by (cases ts) auto
    from RScope.IH [of t0] ts sp False show ?thesis by simp
  qed
qed

lemma on_spine_tinsert_new: "on_spine cur t \<Longrightarrow> on_spine rl (tinsert cur (RScope rl ts') t)"
proof (induction t)
  case (RCleanup a f d)
  then show ?case by simp
next
  case (RScope a ts)
  show ?case
  proof (cases "a = cur")
    case True
    then show ?thesis by simp
  next
    case False
    with RScope.prems obtain t0 rest where ts: "ts = t0 # rest" and sp: "on_spine cur t0"
      by (cases ts) auto
    from RScope.IH [of t0] ts sp False show ?thesis by simp
  qed
qed

lemma scopes_tinsert: "scopes t \<noteq> [] \<Longrightarrow> scopes (tinsert cur n t) \<noteq> []"
  by (cases t) (auto split: list.splits)

lemma rep_tinsert:
  assumes "rep s par t" "distinct (addrs t)" "on_spine cur t"
    and cur: "node_at s cur = Some (Reslist p c)"
    and cur': "node_at s' cur = Some (Reslist p (raddr n # c))"
    and same: "\<And>b. b < length (nodes s) \<Longrightarrow> b \<noteq> cur \<Longrightarrow> node_at s' b = node_at s b"
    and new: "rep s' (Some cur) n"
  shows "rep s' par (tinsert cur n t)"
  using assms(1-3)
proof (induction t arbitrary: par)
  case (RCleanup a f d)
  then show ?case by simp
next
  case (RScope a ts)
  from RScope.prems(1) have na: "node_at s a = Some (Reslist par (map raddr ts))"
    and kids: "\<forall>t \<in> set ts. rep s (Some a) t" by simp_all
  have keep: "rep s' (Some a) t" if t: "t \<in> set ts" "cur \<notin> set (addrs t)" for t
  proof -
    have "rep s' (Some a) t = rep s (Some a) t"
    proof (rule rep_frame)
      fix b assume b: "b \<in> set (addrs t)"
      with kids t(1) have "b < length (nodes s)" by (auto dest: rep_live)
      moreover from b t(2) have "b \<noteq> cur" by auto
      ultimately show "node_at s' b = node_at s b" by (rule same)
    qed
    with kids t(1) show ?thesis by simp
  qed
  show ?case
  proof (cases "a = cur")
    case True
    with na cur have pc: "p = par" "c = map raddr ts" by simp_all
    have "cur \<notin> set (addrs t)" if "t \<in> set ts" for t
      using RScope.prems(2) True that by auto
    with keep have "\<forall>t \<in> set ts. rep s' (Some a) t" by blast
    with True cur' pc new show ?thesis by simp
  next
    case False
    with RScope.prems(3) obtain t0 rest where ts: "ts = t0 # rest" and sp: "on_spine cur t0"
      by (cases ts) auto
    have la: "a < length (nodes s)" using na by (rule node_at_live)
    have "node_at s' a = Some (Reslist par (map raddr ts))"
      using same [OF la False] na by simp
    moreover have "rep s' (Some a) (tinsert cur n t0)"
      using RScope.IH [of t0 "Some a"] ts kids RScope.prems(2) sp by simp
    moreover have "rep s' (Some a) t" if "t \<in> set rest" for t
    proof (rule keep)
      show "t \<in> set ts" using that ts by simp
      have "cur \<in> set (addrs t0)" using sp by (rule on_spine_scope)
      with RScope.prems(2) ts that show "cur \<notin> set (addrs t)" by auto
    qed
    ultimately show ?thesis using False ts by simp
  qed
qed

lemma raddr_tcommit [simp]: "raddr (tcommit cl fn d t) = raddr t"
  by (cases t) simp_all

lemma addrs_tcommit [simp]: "addrs (tcommit cl fn d t) = addrs t"
proof (induction t)
  case (RCleanup a f0 d0)
  show ?case by simp
next
  case (RScope a ts)
  then have "\<forall>t \<in> set ts. addrs (tcommit cl fn d t) = addrs t" by blast
  then have "concat (map (\<lambda>t. addrs (tcommit cl fn d t)) ts) = concat (map addrs ts)"
    by (induction ts) simp_all
  then show ?case by (simp add: comp_def)
qed

lemma scopes_tcommit [simp]: "scopes (tcommit cl fn d t) = scopes t"
proof (induction t)
  case (RCleanup a f0 d0)
  show ?case by simp
next
  case (RScope a ts)
  then have "\<forall>t \<in> set ts. scopes (tcommit cl fn d t) = scopes t" by blast
  then have "concat (map (\<lambda>t. scopes (tcommit cl fn d t)) ts) = concat (map scopes ts)"
    by (induction ts) simp_all
  then show ?case by (simp add: comp_def)
qed

lemma on_spine_tcommit [simp]: "on_spine cur (tcommit cl fn d t) = on_spine cur t"
proof (induction t)
  case (RCleanup a f0 d0)
  show ?case by simp
next
  case (RScope a ts)
  then show ?case by (cases ts) simp_all
qed

lemma recs_tcommit:
  "recs (tcommit cl fn d t) = map (\<lambda>(a, x). if a = cl then (a, fn, d) else (a, x)) (recs t)"
proof (induction t)
  case (RCleanup a f0 d0)
  show ?case by simp
next
  case (RScope a ts)
  then have "\<forall>t \<in> set ts. recs (tcommit cl fn d t) =
      map (\<lambda>(a, x). if a = cl then (a, fn, d) else (a, x)) (recs t)" by blast
  then have "concat (map (\<lambda>t. recs (tcommit cl fn d t)) ts) =
      map (\<lambda>(a, x). if a = cl then (a, fn, d) else (a, x)) (concat (map recs ts))"
    by (induction ts) simp_all
  then show ?case by (simp add: comp_def)
qed

lemma recs_addrs: "set (map fst (recs t)) \<subseteq> set (addrs t)"
  by (induction t) auto


lemma rep_tcommit:
  assumes "rep s par t" 
    and cl: "node_at s cl = Some (Cleanup f0 d0)"
  shows "rep (set_node cl (Cleanup fn d) s) par (tcommit cl fn d t)"
  using assms(1)
proof (induction t arbitrary: par)
  case (RCleanup a f1 d1)
  then show ?case using cl by (auto simp: node_at_set_node dest: node_at_live)
next
  case (RScope a ts)
  from RScope.prems cl have "a \<noteq> cl" by auto
  with RScope show ?case by (auto simp: node_at_set_node comp_def)
qed

lemma rep_pop:
  "rep s par t \<Longrightarrow> on_spine cur t \<Longrightarrow> cur \<noteq> raddr t \<Longrightarrow>
   \<exists>q c. node_at s cur = Some (Reslist (Some q) c) \<and> on_spine q t"
proof (induction t arbitrary: par)
  case (RCleanup a f d)
  then show ?case by simp
next
  case (RScope a ts)
  from RScope.prems(2,3) obtain t0 rest where ts: "ts = t0 # rest" and sp: "on_spine cur t0"
    by (cases ts) auto
  from RScope.prems(1) ts have r0: "rep s (Some a) t0" by simp
  show ?case
  proof (cases "cur = raddr t0")
    case True
    from sp obtain b ts0 where t0: "t0 = RScope b ts0" by (auto dest: on_spine_is_scope)
    with True r0 have "node_at s cur = Some (Reslist (Some a) (map raddr ts0))" by simp
    then show ?thesis by auto
  next
    case False
    from RScope.IH [of t0 "Some a"] ts r0 sp False
    obtain q c where "node_at s cur = Some (Reslist (Some q) c)" "on_spine q t0" by auto
    with ts show ?thesis by auto
  qed
qed

section \<open>Sequences of operations keep a tree\<close>

lemma rep_nodes_cong: "nodes s' = nodes s \<Longrightarrow> rep s' par t = rep s par t"
  by (rule rep_frame) (rule node_at_nodes_cong)

lemma distinct_recs: "distinct (addrs t) \<Longrightarrow> distinct (map fst (recs t))"
proof (induction t)
  case (RCleanup a f d)
  show ?case by simp
next
  case (RScope a ts)
  from RScope.prems have "distinct (concat (map addrs ts))" by simp
  with RScope.IH show ?case
  proof (induction ts)
    case Nil
    show ?case by simp
  next
    case (Cons t0 rest)
    have sub: "set (map fst (recs t)) \<subseteq> set (addrs t)" for t by (rule recs_addrs)
    from Cons.prems(2) have d: "distinct (addrs t0)" "distinct (concat (map addrs rest))"
      "set (addrs t0) \<inter> set (concat (map addrs rest)) = {}" by auto
    have "distinct (map fst (recs (RScope a rest)))"
      using Cons.IH Cons.prems(1) d(2) by simp
    moreover have "distinct (map fst (recs t0))" using Cons.prems(1) d(1) by simp
    moreover have "set (map fst (recs t0)) \<inter> set (map fst (concat (map recs rest))) = {}"
    proof -
      have "set (map fst (concat (map recs rest))) \<subseteq> set (concat (map addrs rest))"
        using sub by fastforce
      with sub [of t0] d(3) show ?thesis by blast
    qed
    ultimately show ?case by simp
  qed
qed

lemma zip_update_at:
  assumes "distinct regs" "length regs = length rs" "k < length regs"
  shows "map (\<lambda>(b, x). if b = regs ! k then (b, v) else (b, x)) (zip regs rs)
           = zip regs (rs[k := v])"
proof (rule nth_equalityI)
  show "length (map (\<lambda>(b, x). if b = regs ! k then (b, v) else (b, x)) (zip regs rs))
          = length (zip regs (rs[k := v]))" by simp
next
  fix i assume "i < length (map (\<lambda>(b, x). if b = regs ! k then (b, v) else (b, x)) (zip regs rs))"
  with assms have i: "i < length regs" "i < length rs" by simp_all
  with assms have "(regs ! i = regs ! k) = (i = k)" by (simp add: nth_eq_iff_index_eq)
  with i assms show "map (\<lambda>(b, x). if b = regs ! k then (b, v) else (b, x)) (zip regs rs) ! i
          = zip regs (rs[k := v]) ! i"
    by (auto simp: nth_list_update)
qed

lemma armed_append: "armed (xs @ ys) = armed xs @ armed ys"
  by (induction xs rule: armed.induct) simp_all

lemma tracksI:
  assumes "raddr t = top_rl" "scopes t \<noteq> []" "rep s par t" "distinct (addrs t)"
    "current_reslist s = Some cur" "on_spine cur t"
    "recs t = rev (zip regs rs)" "length regs = length rs"
    "set (addrs t) = insert top_rl {n0 ..< length (nodes s)}" "top_rl < n0" "n0 \<le> length (nodes s)"
    "\<forall>p. par = Some p \<longrightarrow> p < n0 \<and> p \<noteq> top_rl \<and> (\<exists>pp c. node_at s p = Some (Reslist pp c))"
  shows "tracks top_rl par n0 s regs rs t"
  unfolding tracks_def using assms by blast

lemma tracks_step:
  assumes tr: "tracks top_rl par n0 s regs rs t"
    and run: "run_op top_rl c (s, regs) = Some (s', regs')"
  shows "\<exists>t'. tracks top_rl par n0 s' regs' (registered [c] rs) t'"
proof -
  from tr obtain cur where
    root: "raddr t = top_rl" and sc: "scopes t \<noteq> []" and rp: "rep s par t"
    and di: "distinct (addrs t)"
    and cur: "current_reslist s = Some cur" and sp: "on_spine cur t"
    and rc: "recs t = rev (zip regs rs)" and len: "length regs = length rs"
    and ad: "set (addrs t) = insert top_rl {n0 ..< length (nodes s)}"
    and n0: "top_rl < n0" "n0 \<le> length (nodes s)"
    and pa: "\<forall>p. par = Some p \<longrightarrow> p < n0 \<and> p \<noteq> top_rl \<and> (\<exists>pp c. node_at s p = Some (Reslist pp c))"
    unfolding tracks_def by blast
  have cur_in: "cur \<in> set (addrs t)" using sp by (rule on_spine_scope)
  have live: "a < length (nodes s)" if "a \<in> set (addrs t)" for a
    using rp that by (rule rep_live)
  have cur_lt: "cur < length (nodes s)" using cur_in by (rule live)
  have par_out: "p \<notin> set (addrs t)" if "par = Some p" for p
    using pa that ad by auto
  \<comment> \<open>a new node at the head of the current resource list\<close>
  have grow: "\<exists>t'. tracks top_rl par n0 s2 regs2 rs2 t'"
    if s1: "s1 = set_node cur (Reslist p (raddr n # c)) (sm\<lparr>nodes := nodes s @ [x]\<rparr>)"
      and nc: "node_at (sm\<lparr>nodes := nodes s @ [x]\<rparr>) cur = Some (Reslist p c)"
      and na: "addrs n = [length (nodes s)]"
      and nr: "rep s1 (Some cur) n"
      and s2: "nodes s2 = nodes s1" "current_reslist s2 = Some cur2" "on_spine cur2 (tinsert cur n t)"
      and r2: "recs n @ recs t = rev (zip regs2 rs2)" "length regs2 = length rs2"
    for s1 s2 sm :: state and p c n x cur2 regs2 rs2
  proof -
    let ?t = "tinsert cur n t"
    have c0: "node_at s cur = Some (Reslist p c)"
      using nc cur_lt by (simp add: node_at_def nth_append)
    have ra: "raddr n = length (nodes s)" using na raddr_in_addrs [of n] by simp
    have c1: "node_at s1 cur = Some (Reslist p (raddr n # c))"
      using cur_lt by (simp add: s1 node_at_set_node)
    have same: "node_at s1 b = node_at s b" if "b < length (nodes s)" "b \<noteq> cur" for b
    proof -
      have "node_at s1 b = node_at (sm\<lparr>nodes := nodes s @ [x]\<rparr>) b"
        using that(2) by (simp add: s1 node_at_set_node)
      also have "\<dots> = node_at s b"
        using that(1) by (simp add: node_at_def nth_append)
      finally show ?thesis .
    qed
    have "rep s1 par ?t"
      using rp di sp c0 c1 same nr by (rule rep_tinsert)
    then have rep2: "rep s2 par ?t" using rep_nodes_cong [OF s2(1), of par ?t] by simp
    have "length (nodes s) \<notin> set (addrs t)" using live by blast
    then have fresh: "set (addrs t) \<inter> set (addrs n) = {}"
      by (simp add: na)
    have di2: "distinct (addrs ?t)"
      using sp di _ fresh by (rule distinct_tinsert) (simp add: na)
    have l2: "length (nodes s2) = Suc (length (nodes s))"
      using s2(1) by (simp add: s1)
    have "{n0 ..< Suc (length (nodes s))} = insert (length (nodes s)) {n0 ..< length (nodes s)}"
      using n0(2) by (simp add: atLeastLessThanSuc)
    then have ad2: "set (addrs ?t) = insert top_rl {n0 ..< length (nodes s2)}"
      using addrs_tinsert [OF sp, of n] ad na l2 by (simp add: insert_commute)
    have pa2: "\<forall>q. par = Some q \<longrightarrow>
        q < n0 \<and> q \<noteq> top_rl \<and> (\<exists>pp c. node_at s2 q = Some (Reslist pp c))"
    proof (intro allI impI)
      fix q assume q: "par = Some q"
      with pa obtain pp c' where "q < n0" "q \<noteq> top_rl" "node_at s q = Some (Reslist pp c')"
        by blast
      moreover have "q \<noteq> cur" using par_out [OF q] cur_in by auto
      moreover have "node_at s2 q = node_at s1 q" using s2(1) by (rule node_at_nodes_cong)
      ultimately show "q < n0 \<and> q \<noteq> top_rl \<and> (\<exists>pp c. node_at s2 q = Some (Reslist pp c))"
        using same [of q] n0 by auto
    qed
    have n2: "n0 \<le> length (nodes s2)" using n0(2) l2 by simp
    have rc2: "recs ?t = rev (zip regs2 rs2)" using recs_tinsert [OF sp, of n] r2(1) by simp
    have "tracks top_rl par n0 s2 regs2 rs2 ?t"
      using _ scopes_tinsert [OF sc] rep2 di2 s2(2,3) rc2 r2(2) ad2 n0(1) n2 pa2
      by (rule tracksI) (simp add: root)
    then show ?thesis ..
  qed
  show ?thesis
  proof (cases c)
    case Push
    with run obtain rl where p: "reslist_push_new s = Ret rl s'" and r: "regs' = regs"
      by (auto split: outcome.splits)
    from p obtain s0 cur0 p0 c0 where
      m: "malloc s = (True, s0)" and "current_reslist s = Some cur0"
      and rl: "rl = length (nodes s)"
      and nc: "node_at (s0\<lparr>nodes := nodes s @ [Some (Reslist (Some cur0) [])]\<rparr>) cur0
                 = Some (Reslist p0 c0)"
      and s': "s' = (set_node cur0 (Reslist p0 (rl # c0))
             (s0\<lparr>nodes := nodes s @ [Some (Reslist (Some cur0) [])]\<rparr>))\<lparr>current_reslist := Some rl\<rparr>"
      by (rule reslist_push_new_Ret)
    with cur have c0: "cur0 = cur" by simp
    let ?s1 = "set_node cur (Reslist p0 (raddr (RScope rl []) # c0))
                 (s0\<lparr>nodes := nodes s @ [Some (Reslist (Some cur) [])]\<rparr>)"
    have "\<exists>t'. tracks top_rl par n0 s' regs rs t'"
    proof (rule grow [where ?s1.0 = ?s1 and p = p0 and n = "RScope rl []" and c = c0 and sm = s0
          and x = "Some (Reslist (Some cur) [])" and ?s2.0 = s' and ?cur2.0 = rl])
      show "?s1 = set_node cur (Reslist p0 (raddr (RScope rl []) # c0))
                 (s0\<lparr>nodes := nodes s @ [Some (Reslist (Some cur) [])]\<rparr>)" ..
      show "node_at (s0\<lparr>nodes := nodes s @ [Some (Reslist (Some cur) [])]\<rparr>) cur
              = Some (Reslist p0 c0)" using nc c0 by simp
      show "addrs (RScope rl []) = [length (nodes s)]" using rl by simp
      show "rep ?s1 (Some cur) (RScope rl [])"
        using rl cur_lt by (simp add: node_at_set_node) (simp add: node_at_def)
      show "nodes s' = nodes ?s1" using s' c0 by simp
      show "current_reslist s' = Some rl" using s' by simp
      show "on_spine rl (tinsert cur (RScope rl []) t)" using sp by (rule on_spine_tinsert_new)
      show "recs (RScope rl []) @ recs t = rev (zip regs rs)" using rc by simp
      show "length regs = length rs" by (rule len)
    qed
    with Push r show ?thesis by simp
  next
    case Register
    with run obtain cl where p: "cleanup_allocate s = Ret cl s'" and r: "regs' = regs @ [cl]"
      by (auto split: outcome.splits)
    from p obtain s0 cur0 p0 c0 where
      m: "malloc s = (True, s0)" and "current_reslist s = Some cur0"
      and cl: "cl = length (nodes s)"
      and nc: "node_at (s0\<lparr>nodes := nodes s @ [Some (Cleanup None 0)]\<rparr>) cur0
                 = Some (Reslist p0 c0)"
      and s': "s' = set_node cur0 (Reslist p0 (cl # c0))
             (s0\<lparr>nodes := nodes s @ [Some (Cleanup None 0)]\<rparr>)"
      by (rule cleanup_allocate_Ret)
    with cur have c0: "cur0 = cur" by simp
    have "\<exists>t'. tracks top_rl par n0 s' (regs @ [cl]) (rs @ [(None, 0)]) t'"
    proof (rule grow [where ?s1.0 = s' and p = p0 and n = "RCleanup cl None 0" and c = c0 and sm = s0
          and x = "Some (Cleanup None 0)" and ?s2.0 = s' and ?cur2.0 = cur])
      show "s' = set_node cur (Reslist p0 (raddr (RCleanup cl None 0) # c0))
                 (s0\<lparr>nodes := nodes s @ [Some (Cleanup None 0)]\<rparr>)" using s' c0 by simp
      show "node_at (s0\<lparr>nodes := nodes s @ [Some (Cleanup None 0)]\<rparr>) cur
              = Some (Reslist p0 c0)" using nc c0 by simp
      show "addrs (RCleanup cl None 0) = [length (nodes s)]" using cl by simp
      show "rep s' (Some cur) (RCleanup cl None 0)"
        using cl cur_lt s' c0 by (simp add: node_at_set_node) (simp add: node_at_def)
      show "nodes s' = nodes s'" ..
      show "current_reslist s' = Some cur"
        using s' c0 cur malloc_fields(3) [OF m] by simp
      show "on_spine cur (tinsert cur (RCleanup cl None 0) t)"
        using sp by (rule on_spine_tinsert_same)
      show "recs (RCleanup cl None 0) @ recs t = rev (zip (regs @ [cl]) (rs @ [(None, 0)]))"
        using rc len by simp
      show "length (regs @ [cl]) = length (rs @ [(None, 0)])" using len by simp
    qed
    with Register r show ?thesis by simp
  next
    case Pop
    with run have ne: "cur \<noteq> top_rl" and p: "reslist_pop_nodestroy s = Ret () s'"
      and r: "regs' = regs"
      using cur by (auto split: if_splits outcome.splits)
    from rep_pop [OF rp sp] ne root obtain q c0 where
      q: "node_at s cur = Some (Reslist (Some q) c0)" "on_spine q t" by auto
    with p cur have s': "s' = s\<lparr>current_reslist := Some q\<rparr>"
      by (simp add: reslist_pop_nodestroy_def)
    have "nodes s' = nodes s" by (simp add: s')
    then have "rep s' par t" using rp rep_nodes_cong [of s' s par t] by simp
    moreover have "\<forall>p. par = Some p \<longrightarrow>
        p < n0 \<and> p \<noteq> top_rl \<and> (\<exists>pp c. node_at s' p = Some (Reslist pp c))"
      using pa node_at_nodes_cong [OF \<open>nodes s' = nodes s\<close>] by simp
    moreover have "current_reslist s' = Some q" by (simp add: s')
    moreover have "set (addrs t) = insert top_rl {n0 ..< length (nodes s')}" 
      "n0 \<le> length (nodes s')" using ad n0(2) by (simp_all add: s')
    ultimately have "tracks top_rl par n0 s' regs rs t"
      using root sc di q(2) rc len n0(1) by (intro tracksI)
    with Pop r show ?thesis by auto
  next
    case (Commit k f d)
    with run have k: "k < length regs"
      and p: "cleanup_commit (regs ! k) (Some f) d s = Ret () s'" and r: "regs' = regs"
      by (auto split: if_splits outcome.splits)
    let ?a = "regs ! k"
    from p obtain f0 d0 where na: "node_at s ?a = Some (Cleanup f0 d0)"
      and s': "s' = set_node ?a (Cleanup (Some f) d) s"
      by (auto simp: cleanup_commit_def split: option.splits resource.splits)
    let ?t = "tcommit ?a (Some f) d t"
    have "rep s' par ?t" unfolding s' using rp na by (rule rep_tcommit)
    moreover have "recs ?t = rev (zip regs (rs[k := (Some f, d)]))"
    proof -
      have "map fst (recs t) = rev regs" using rc len by (simp add: rev_map [symmetric])
      with distinct_recs [OF di] have dr: "distinct regs" by simp
      have "recs ?t = map (\<lambda>(b, x). if b = ?a then (b, Some f, d) else (b, x)) (rev (zip regs rs))"
        by (simp add: recs_tcommit rc)
      also have "\<dots> = rev (map (\<lambda>(b, x). if b = ?a then (b, Some f, d) else (b, x)) (zip regs rs))"
        by (simp add: rev_map)
      also have "\<dots> = rev (zip regs (rs[k := (Some f, d)]))"
        using zip_update_at [OF dr len k] by simp
      finally show ?thesis .
    qed
    moreover have "\<forall>p. par = Some p \<longrightarrow>
        p < n0 \<and> p \<noteq> top_rl \<and> (\<exists>pp c. node_at s' p = Some (Reslist pp c))"
      using pa na by (auto simp: s' node_at_set_node)
    moreover have "current_reslist s' = Some cur" using cur by (simp add: s')
    moreover have "set (addrs ?t) = insert top_rl {n0 ..< length (nodes s')}" 
      "n0 \<le> length (nodes s')" using ad n0(2) by (simp_all add: s')
    moreover have "length regs = length (rs[k := (Some f, d)])" using len by simp
    ultimately have "tracks top_rl par n0 s' regs (rs[k := (Some f, d)]) ?t"
      using root sc di sp n0(1) by (intro tracksI) simp_all
    with Commit r show ?thesis by auto
  qed
qed

lemma registered_append_one: "registered (c # cs) rs = registered cs (registered [c] rs)"
  by (cases c) simp_all

lemma tracks_run:
  "tracks top_rl par n0 s regs rs t \<Longrightarrow> run_ops top_rl cs (s, regs) = Some (s', regs') \<Longrightarrow>
   \<exists>t'. tracks top_rl par n0 s' regs' (registered cs rs) t'"
proof (induction cs arbitrary: s regs rs t)
  case Nil
  then show ?case by auto
next
  case (Cons c cs)
  from Cons.prems(2) obtain s1 regs1 where
    one: "run_op top_rl c (s, regs) = Some (s1, regs1)"
    and more: "run_ops top_rl cs (s1, regs1) = Some (s', regs')"
    by (auto split: option.splits)
  from tracks_step [OF Cons.prems(1) one] obtain t1 where
    "tracks top_rl par n0 s1 regs1 (registered [c] rs) t1" ..
  from Cons.IH [OF this more] show ?case
    by (subst registered_append_one)
qed


section \<open>The order of the cleanup calls\<close>

lemma call_cleanupfn_invoked:
  "call_cleanupfn f d s = Ret u s' \<Longrightarrow> invoked s' = invoked s @ [(f, d)]"
  by (auto simp: call_cleanupfn_def fd_cleanup_def free_block_def Let_def
           split: cleanupfn.splits if_splits)

lemma run_actions_invoked: "run_actions as s = Ret u s' \<Longrightarrow> invoked s' = invoked s @ as"
proof (induction as arbitrary: s)
  case Nil
  then show ?case by simp
next
  case (Cons x as)
  obtain f d where x: "x = (f, d)" by (cases x)
  from Cons.prems obtain u1 s1 where c: "call_cleanupfn f d s = Ret u1 s1"
    and r: "run_actions as s1 = Ret u s'"
    by (cases "call_cleanupfn f d s") (simp_all add: x)
  from Cons.IH [OF r] call_cleanupfn_invoked [OF c] show ?case by (simp add: x)
qed

lemma finish_Ret:
  "finish as N s = Ret u s' \<Longrightarrow> \<exists>sa. run_actions as s = Ret () sa \<and> s' = sa\<lparr>nodes := N\<rparr>"
  by (cases "run_actions as s") (simp_all add: finish_def)

lemma finish_invoked: "finish as N s = Ret u s' \<Longrightarrow> invoked s' = invoked s @ as"
  by (auto dest!: finish_Ret run_actions_invoked)

lemma run_actions_no_close:
  "\<forall>d. (CF_fd_cleanup, d) \<notin> set as \<Longrightarrow> \<exists>s'. run_actions as s = Ret () s'"
proof (induction as arbitrary: s)
  case Nil
  show ?case by simp
next
  case (Cons x as)
  obtain f d where x: "x = (f, d)" by (cases x)
  with Cons.prems have "f \<noteq> CF_fd_cleanup" by auto
  then obtain s1 where "call_cleanupfn f d s = Ret () s1"
    by (cases f) (simp_all add: call_cleanupfn_def)
  moreover from Cons.IH [of s1] Cons.prems obtain s' where "run_actions as s1 = Ret () s'"
    by auto
  ultimately show ?case by (simp add: x)
qed

lemma finish_no_close:
  "\<forall>d. (CF_fd_cleanup, d) \<notin> set as \<Longrightarrow> \<exists>s'. finish as N s = Ret () s'"
  using run_actions_no_close [of as s] by (auto simp: finish_def)

text \<open>
  C1, as amended. Destroying a resource list that holds a tree makes the cleanup calls
  of the tree in pre-order, so each element of the contents is dealt with completely,
  with all that is below it, before the next (older) one. After any sequence of pushes,
  pops, registrations and commits under \<open>top_rl\<close>, destroying \<open>top_rl\<close> makes exactly
  the calls \<open>expected_calls\<close>: one call for every armed record, with the function and
  argument of its last commit, the records taken in the reverse order of their
  registration, and no call for a record that was never committed. All objects that the
  sequence allocated are freed.
\<close>

theorem destroy_runs_cleanups_newest_first:
  assumes "current_reslist s0 = Some top_rl" "node_at s0 top_rl = Some (Reslist par [])"
    and "\<And>p. par = Some p \<Longrightarrow> p \<noteq> top_rl \<and> (\<exists>pp c. node_at s0 p = Some (Reslist pp c))"
    and "run_ops top_rl cs (s0, []) = Some (s, regs)"
  shows "reslist_destroy top_rl s =
           finish (expected_calls cs)
             (sweep (insert top_rl {length (nodes s0) ..< length (nodes s)})
                (nodes (unlinked par top_rl s))) s \<and>
         (\<forall>s'. reslist_destroy top_rl s = Ret () s' \<longrightarrow>
            invoked s' = invoked s @ expected_calls cs \<and>
            destroy_log top_rl cs s0 = Some (expected_calls cs)) \<and>
         ((\<forall>d. (CF_fd_cleanup, d) \<notin> set (expected_calls cs)) \<longrightarrow>
            (\<exists>s'. reslist_destroy top_rl s = Ret () s')) \<and>
         (\<forall>t rl ts q. rep t q (RScope rl ts) \<and> distinct (addrs (RScope rl ts)) \<and>
            (\<forall>p. q = Some p \<longrightarrow>
               p \<notin> set (addrs (RScope rl ts)) \<and> (\<exists>pp c. node_at t p = Some (Reslist pp c))) \<longrightarrow>
            reslist_destroy rl t =
              finish (concat (map acts ts))
                (sweep (set (addrs (RScope rl ts))) (nodes (unlinked q rl t))) t)"
proof -
  let ?n0 = "length (nodes s0)"
  have top_lt: "top_rl < ?n0" using assms(2) by (rule node_at_live)
  have "tracks top_rl par ?n0 s0 [] [] (RScope top_rl [])"
  proof (rule tracksI)
    show "\<forall>p. par = Some p \<longrightarrow>
        p < ?n0 \<and> p \<noteq> top_rl \<and> (\<exists>pp c. node_at s0 p = Some (Reslist pp c))"
      using assms(3) by (auto dest: node_at_live)
    show "set (addrs (RScope top_rl [])) = insert top_rl {?n0 ..< length (nodes s0)}" by simp
  qed (use assms(1,2) top_lt in simp_all)
  from tracks_run [OF this assms(4)] obtain t where
    tr: "tracks top_rl par ?n0 s regs (registered cs []) t" ..
  then obtain ts where t: "t = RScope top_rl ts"
    unfolding tracks_def by (cases t) auto
  from tr have rp: "rep s par t" and di: "distinct (addrs t)"
    and rc: "recs t = rev (zip regs (registered cs []))"
    and len: "length regs = length (registered cs [])"
    and ad: "set (addrs t) = insert top_rl {?n0 ..< length (nodes s)}"
    and pa: "\<forall>p. par = Some p \<longrightarrow>
        p < ?n0 \<and> p \<noteq> top_rl \<and> (\<exists>pp c. node_at s p = Some (Reslist pp c))"
    unfolding tracks_def by blast+
  have "map snd (recs t) = rev (registered cs [])"
    using rc len by (simp add: rev_map [symmetric])
  then have ac: "acts t = expected_calls cs"
    by (simp add: acts_recs expected_calls_def)
  have "reslist_destroy top_rl s =
      finish (acts (RScope top_rl ts))
        (sweep (set (addrs (RScope top_rl ts))) (nodes (unlinked par top_rl s))) s"
  proof (rule reslist_destroy_rep)
    show "rep s par (RScope top_rl ts)" using rp t by simp
    show "distinct (addrs (RScope top_rl ts))" using di t by simp
    show "p \<notin> set (addrs (RScope top_rl ts)) \<and> (\<exists>pp c. node_at s p = Some (Reslist pp c))"
      if "par = Some p" for p
      using pa that ad t by auto
  qed
  then have main: "reslist_destroy top_rl s =
      finish (expected_calls cs)
        (sweep (insert top_rl {?n0 ..< length (nodes s)}) (nodes (unlinked par top_rl s))) s"
    using ac ad t by simp
  have log: "invoked s' = invoked s @ expected_calls cs \<and>
      destroy_log top_rl cs s0 = Some (expected_calls cs)"
    if "reslist_destroy top_rl s = Ret () s'" for s'
  proof -
    from that main have "invoked s' = invoked s @ expected_calls cs"
      by (auto dest: finish_invoked)
    with that assms(4) show ?thesis by (simp add: destroy_log_def)
  qed
  have ok: "\<exists>s'. reslist_destroy top_rl s = Ret () s'"
    if "\<forall>d. (CF_fd_cleanup, d) \<notin> set (expected_calls cs)"
    using finish_no_close [OF that] main by simp
  have pre: "reslist_destroy rl t' =
        finish (concat (map acts ts'))
          (sweep (set (addrs (RScope rl ts'))) (nodes (unlinked q rl t'))) t'"
    if "rep t' q (RScope rl ts')" "distinct (addrs (RScope rl ts'))"
      "\<forall>p. q = Some p \<longrightarrow>
         p \<notin> set (addrs (RScope rl ts')) \<and> (\<exists>pp c. node_at t' p = Some (Reslist pp c))"
    for t' rl ts' q
    using reslist_destroy_rep [OF that(1,2)] that(3) by simp
  from main log ok pre show ?thesis by blast
qed

lemma commit_out_of_order:
  "destroy_log 1 [Register, Register, Commit 1 (CF_client 2) 20, Commit 0 (CF_client 1) 10] guarded
     = Some [(CF_client 2, 20), (CF_client 1, 10)]"
  by code_simp

theorem reverse_commit_order_counterexample:
  "destroy_log 1 [Register, Register, Commit 1 (CF_client 2) 20, Commit 0 (CF_client 1) 10] guarded
     = Some [(CF_client 2, 20), (CF_client 1, 10)] \<and>
   destroy_log 1 [Register, Register, Commit 1 (CF_client 2) 20, Commit 0 (CF_client 1) 10] guarded
     \<noteq> Some (rev (commit_order
           [Register, Register, Commit 1 (CF_client 2) 20, Commit 0 (CF_client 1) 10]))"
  unfolding commit_out_of_order by simp

lemma mixed_sequence_runs:
  "run_ops 1 [Register, Push, Register, Commit 0 (CF_client 1) 10, Commit 1 (CF_client 2) 20,
              Commit 0 (CF_client 3) 30, Pop, Register, Register, Commit 3 CF_fd_cleanup 2]
     (guarded, []) \<noteq> None"
  by code_simp

theorem destroy_runs_cleanups_newest_first_witness:
  "\<exists>s regs.
     current_reslist guarded = Some 1 \<and> node_at guarded 1 = Some (Reslist (Some 0) []) \<and>
     node_at guarded 0 = Some (Reslist None [1]) \<and>
     run_ops 1 [Register, Push, Register, Commit 0 (CF_client 1) 10, Commit 1 (CF_client 2) 20,
                Commit 0 (CF_client 3) 30, Pop, Register, Register, Commit 3 CF_fd_cleanup 2]
       (guarded, []) = Some (s, regs) \<and>
     reslist_destroy 1 s =
       finish [(CF_fd_cleanup, 2), (CF_client 2, 20), (CF_client 3, 30)]
         (sweep (insert 1 {2 ..< length (nodes s)}) (nodes (unlinked (Some 0) 1 s))) s"
proof -
  let ?cs = "[Register, Push, Register, Commit 0 (CF_client 1) 10, Commit 1 (CF_client 2) 20,
              Commit 0 (CF_client 3) 30, Pop, Register, Register, Commit 3 CF_fd_cleanup 2]"
  have c: "current_reslist guarded = Some 1" "node_at guarded 1 = Some (Reslist (Some 0) [])"
    "node_at guarded 0 = Some (Reslist None [1])" "length (nodes guarded) = 2"
    by (simp_all add: guarded_def boot_def node_at_def)
  have p: "p \<noteq> 1 \<and> (\<exists>pp c. node_at guarded p = Some (Reslist pp c))" if "Some 0 = Some p" for p
    using that c(3) by auto
  from mixed_sequence_runs obtain s regs where r: "run_ops 1 ?cs (guarded, []) = Some (s, regs)"
    by (cases "run_ops 1 ?cs (guarded, [])") auto
  have e: "expected_calls ?cs = [(CF_fd_cleanup, 2), (CF_client 2, 20), (CF_client 3, 30)]"
    by (simp add: expected_calls_def)
  from destroy_runs_cleanups_newest_first [of guarded 1 "Some 0" ?cs s regs, OF c(1,2) p r]
  have "reslist_destroy 1 s =
       finish (expected_calls ?cs)
         (sweep (insert 1 {length (nodes guarded) ..< length (nodes s)})
            (nodes (unlinked (Some 0) 1 s))) s"
    by blast
  with c r e show ?thesis by auto
qed


section \<open>Descriptors and their close records\<close>






lemma lowest_free_fresh: "lowest_free lo fds \<notin> set fds"
proof -
  let ?I = "[lo .. lo + int (length fds)]"
  have "\<not> set ?I \<subseteq> set fds"
  proof
    assume "set ?I \<subseteq> set fds"
    then have "card (set ?I) \<le> card (set fds)" by (intro card_mono) simp_all
    also have "\<dots> \<le> length fds" by (rule card_length)
    finally show False by simp
  qed
  then have "filter (\<lambda>i. i \<notin> set fds) ?I \<noteq> []"
    by (auto simp: filter_empty_conv)
  then have "hd (filter (\<lambda>i. i \<notin> set fds) ?I) \<in> set (filter (\<lambda>i. i \<notin> set fds) ?I)"
    by (rule hd_in_set)
  then show ?thesis by (simp add: lowest_free_def)
qed

subsection \<open>What a call that returns has done\<close>

lemma andthen_Ret_iff:
  "(andthen m k = Ret v s') = (\<exists>u s1. m = Ret u s1 \<and> k u s1 = Ret v s')"
  by (cases m) auto

lemma cleanup_allocate_RetD:
  assumes "cleanup_allocate s = Ret cl s'"
  shows "\<exists>cur p c. current_reslist s = Some cur \<and> node_at s cur = Some (Reslist p c) \<and>
           cl = length (nodes s) \<and>
           s' = s\<lparr>n_malloc := Suc (n_malloc s), sched := tl (sched s),
                  nodes := (nodes s @ [Some (Cleanup None 0)])[cur := Some (Reslist p (cl # c))]\<rparr>"
proof -
  from assms obtain s0 cur p c where
    m: "malloc s = (True, s0)" and cur: "current_reslist s = Some cur"
    and cl: "cl = length (nodes s)"
    and nc: "node_at (s0\<lparr>nodes := nodes s @ [Some (Cleanup None 0)]\<rparr>) cur = Some (Reslist p c)"
    and s': "s' = set_node cur (Reslist p (cl # c)) (s0\<lparr>nodes := nodes s @ [Some (Cleanup None 0)]\<rparr>)"
    by (rule cleanup_allocate_Ret)
  from nc have "cur < length (nodes s)"
    by (auto simp: node_at_def nth_append split: if_splits)
  with nc have "node_at s cur = Some (Reslist p c)"
    by (simp add: node_at_def nth_append)
  moreover have "s' = s\<lparr>n_malloc := Suc (n_malloc s), sched := tl (sched s),
                  nodes := (nodes s @ [Some (Cleanup None 0)])[cur := Some (Reslist p (cl # c))]\<rparr>"
    unfolding s' malloc_result [OF m] by (simp add: set_node_def)
  ultimately show ?thesis using cur cl by blast
qed

lemma reslist_push_new_RetD:
  assumes "reslist_push_new s = Ret rl s'"
    and cur: "current_reslist s = Some cur" "node_at s cur = Some (Reslist p c)"
  shows "rl = length (nodes s) \<and>
         s' = s\<lparr>n_malloc := Suc (n_malloc s), sched := tl (sched s),
                nodes := (nodes s @ [Some (Reslist (Some cur) [])])[cur := Some (Reslist p (rl # c))],
                current_reslist := Some rl\<rparr>"
proof -
  from assms(1) obtain s0 cur0 p0 c0 where
    m: "malloc s = (True, s0)" and cur0: "current_reslist s = Some cur0"
    and rl: "rl = length (nodes s)"
    and nc: "node_at (s0\<lparr>nodes := nodes s @ [Some (Reslist (Some cur0) [])]\<rparr>) cur0
               = Some (Reslist p0 c0)"
    and s': "s' = (set_node cur0 (Reslist p0 (rl # c0))
             (s0\<lparr>nodes := nodes s @ [Some (Reslist (Some cur0) [])]\<rparr>))\<lparr>current_reslist := Some rl\<rparr>"
    by (rule reslist_push_new_Ret)
  from cur cur0 have e: "cur0 = cur" by simp
  have lt: "cur < length (nodes s)" using cur(2) by (rule node_at_live)
  with nc cur(2) e have "p0 = p" "c0 = c"
    by (simp_all add: node_at_def nth_append)
  then have "s' = s\<lparr>n_malloc := Suc (n_malloc s), sched := tl (sched s),
        nodes := (nodes s @ [Some (Reslist (Some cur) [])])[cur := Some (Reslist p (rl # c))],
        current_reslist := Some rl\<rparr>"
    unfolding s' malloc_result [OF m] e by (simp add: set_node_def)
  with rl show ?thesis by simp
qed

lemma cleanup_commit_RetD:
  "cleanup_commit cl fn d s = Ret u s' \<Longrightarrow>
   (\<exists>f0 d0. node_at s cl = Some (Cleanup f0 d0)) \<and>
   s' = s\<lparr>nodes := (nodes s)[cl := Some (Cleanup fn d)]\<rparr>"
  by (auto simp: cleanup_commit_def set_node_def split: option.splits resource.splits)

lemma noreturn_not_Ret: "noreturn m \<noteq> Ret v s"
  by (cases m) (simp_all add: noreturn_def)

lemma die_not_Ret: "die err fmt args s \<noteq> Ret v s'"
  by (simp add: die_def noreturn_not_Ret)

lemma die_errno_not_Ret: "die_errno fmt args s \<noteq> Ret v s'"
  by (auto simp: die_errno_def Let_def andthen_Ret_iff die_not_Ret split: option.splits)

lemma ext_call_Succeed:
  "ext_call s = (Succeed, s1) \<Longrightarrow> s1 = s\<lparr>sched := tl (sched s)\<rparr>"
  by (auto simp: ext_call_def split: list.splits)

lemma ext_call_Fail:
  "ext_call s = (Fail e, s1) \<Longrightarrow> s1 = s\<lparr>sched := tl (sched s)\<rparr> \<and> sched s \<noteq> []"
  by (auto simp: ext_call_def split: list.splits)

text \<open>A close action committed on the record registered just before.\<close>

lemma register_commit_close:
  assumes a: "cleanup_allocate s = Ret cl s1"
    and mid: "nodes s2 = nodes s1" "current_reslist s2 = current_reslist s1"
    and c: "cleanup_commit_close_fd cl fd s2 = Ret u s3"
  shows "\<exists>cur p c. current_reslist s = Some cur \<and> node_at s cur = Some (Reslist p c) \<and>
           cl = length (nodes s) \<and> current_reslist s3 = Some cur \<and>
           s3 = s2\<lparr>nodes := (nodes s @ [Some (Cleanup (Some CF_fd_cleanup) fd)])
                                [cur := Some (Reslist p (cl # c))]\<rparr>"
proof -
  from cleanup_allocate_RetD [OF a] obtain cur p c where
    cur: "current_reslist s = Some cur" "node_at s cur = Some (Reslist p c)"
    and cl: "cl = length (nodes s)"
    and s1: "s1 = s\<lparr>n_malloc := Suc (n_malloc s), sched := tl (sched s),
                  nodes := (nodes s @ [Some (Cleanup None 0)])[cur := Some (Reslist p (cl # c))]\<rparr>"
    by blast
  have lt: "cur < length (nodes s)" using cur(2) by (rule node_at_live)
  from cleanup_commit_RetD [OF c [unfolded cleanup_commit_close_fd_def]]
  have "s3 = s2\<lparr>nodes := (nodes s2)[cl := Some (Cleanup (Some CF_fd_cleanup) fd)]\<rparr>" by simp
  also have "(nodes s2)[cl := Some (Cleanup (Some CF_fd_cleanup) fd)]
      = (nodes s @ [Some (Cleanup (Some CF_fd_cleanup) fd)])[cur := Some (Reslist p (cl # c))]"
    using lt cl by (simp add: mid s1 list_update_swap list_update_append)
  finally have "s3 = s2\<lparr>nodes := (nodes s @ [Some (Cleanup (Some CF_fd_cleanup) fd)])
                                [cur := Some (Reslist p (cl # c))]\<rparr>" .
  moreover from this have "current_reslist s3 = Some cur"
    using mid(2) cur(1) by (simp add: s1)
  ultimately show ?thesis using cur cl by blast
qed


lemma xdup_RetD:
  assumes "xdup fd0 s = Ret fd s'"
  shows "fd0 \<in> set (open_fds s) \<and> fd \<notin> set (open_fds s) \<and> open_fds s' = fd # open_fds s \<and>
         (\<exists>cur p c. current_reslist s = Some cur \<and> node_at s cur = Some (Reslist p c) \<and>
            current_reslist s' = Some cur \<and>
            nodes s' = (nodes s @ [Some (Cleanup (Some CF_fd_cleanup) fd)])
                         [cur := Some (Reslist p (length (nodes s) # c))])"
proof -
  from assms obtain cl s1 where a: "cleanup_allocate s = Ret cl s1"
    and rest: "(case sys_dupfd fd0 s1 of
         (newfd, s2) \<Rightarrow>
           if newfd = - 1 then die_errno ''F_DUPFD_CLOEXEC'' [] s2
           else andthen (cleanup_commit_close_fd cl newfd s2) (\<lambda>u s3. Ret newfd s3)) = Ret fd s'"
    unfolding xdup_def andthen_Ret_iff by blast
  obtain fd' s2 where o': "sys_dupfd fd0 s1 = (fd', s2)" by (cases "sys_dupfd fd0 s1")
  with rest have ne': "fd' \<noteq> - 1"
    by (auto simp: die_errno_not_Ret)
  with rest o' have "fd' = fd" and c: "cleanup_commit_close_fd cl fd s2 = Ret () s'"
    by (auto simp: andthen_Ret_iff)
  with o' ne' have o: "sys_dupfd fd0 s1 = (fd, s2)" and ne: "fd \<noteq> - 1" by simp_all
  from cleanup_allocate_RetD [OF a] have f1: "open_fds s1 = open_fds s" by auto
  from o ne have s2: "s2 = s1\<lparr>sched := tl (sched s1), open_fds := fd # open_fds s1\<rparr>"
    and fd: "fd = lowest_free fd0 (open_fds s1)" and fd0: "fd0 \<in> set (open_fds s1)"
    by (auto simp: sys_dupfd_def Let_def split: prod.splits ext_result.splits if_splits
             dest!: ext_call_Succeed)
  have "fd \<notin> set (open_fds s)" using fd f1 lowest_free_fresh by simp
  moreover from register_commit_close [OF a _ _ c, unfolded s2] s2 f1
  have "open_fds s' = fd # open_fds s \<and>
         (\<exists>cur p c. current_reslist s = Some cur \<and> node_at s cur = Some (Reslist p c) \<and>
            current_reslist s' = Some cur \<and>
            nodes s' = (nodes s @ [Some (Cleanup (Some CF_fd_cleanup) fd)])
                         [cur := Some (Reslist p (length (nodes s) # c))])"
    by auto
  ultimately show ?thesis using fd0 f1 by simp
qed











section \<open>Descriptor handles\<close>

lemma xalloc_RetD:
  assumes "xalloc sz s = Ret mem s'"
  shows "\<exists>cur p c. current_reslist s = Some cur \<and> node_at s cur = Some (Reslist p c) \<and>
           mem = length (blocks s) \<and>
           blocks s' = blocks s @ [Some (Block sz Uninit)] \<and>
           nodes s' = (nodes s @ [Some (Cleanup (Some CF_free) (int mem))])
                        [cur := Some (Reslist p (length (nodes s) # c))] \<and>
           current_reslist s' = Some cur \<and> open_fds s' = open_fds s \<and>
           invoked s' = invoked s \<and> current_errh s' = current_errh s"
proof -
  from assms obtain cl s1 where a: "cleanup_allocate s = Ret cl s1"
    and rest: "(case malloc s1 of
         (False, s2) \<Rightarrow> die_oom s2
       | (True, s2) \<Rightarrow>
           (let mem = length (blocks s2);
                s3 = s2\<lparr>blocks := blocks s2 @ [Some (Block sz Uninit)]\<rparr>
            in andthen (cleanup_commit cl (Some CF_free) (int mem) s3) (\<lambda>u s4. Ret mem s4)))
       = Ret mem s'"
    unfolding xalloc_def andthen_Ret_iff by blast
  obtain b s2 where m: "malloc s1 = (b, s2)" by (cases "malloc s1")
  with rest have b: "b" by (cases b) (auto simp: die_oom_not_Ret)
  note f2 = malloc_fields [OF m]
  let ?s3 = "s2\<lparr>blocks := blocks s2 @ [Some (Block sz Uninit)]\<rparr>"
  from rest m b have mem: "mem = length (blocks s2)"
    and c: "cleanup_commit cl (Some CF_free) (int mem) ?s3 = Ret () s'"
    by (auto simp: Let_def andthen_Ret_iff)
  from cleanup_allocate_RetD [OF a] obtain cur p c where
    cur: "current_reslist s = Some cur" "node_at s cur = Some (Reslist p c)"
    and cl: "cl = length (nodes s)"
    and s1: "s1 = s\<lparr>n_malloc := Suc (n_malloc s), sched := tl (sched s),
                  nodes := (nodes s @ [Some (Cleanup None 0)])[cur := Some (Reslist p (cl # c))]\<rparr>"
    by blast
  have lt: "cur < length (nodes s)" using cur(2) by (rule node_at_live)
  from cleanup_commit_RetD [OF c] have s': "s' = ?s3\<lparr>nodes := (nodes ?s3)[cl := Some (Cleanup (Some CF_free) (int mem))]\<rparr>"
    by simp
  have n: "nodes s' = (nodes s @ [Some (Cleanup (Some CF_free) (int mem))])
                        [cur := Some (Reslist p (length (nodes s) # c))]"
    unfolding s' using f2(1) s1 cl lt
    by (simp add: list_update_append list_update_swap [of cur])
  show ?thesis
    using cur mem n f2 s1 by (simp add: s')
qed

lemma xdup_frame:
  assumes "xdup fd0 s = Ret fd s'"
  shows "blocks s' = blocks s \<and> invoked s' = invoked s \<and> current_errh s' = current_errh s"
proof -
  from assms obtain cl s1 where a: "cleanup_allocate s = Ret cl s1"
    and rest: "(case sys_dupfd fd0 s1 of
         (newfd, s2) \<Rightarrow>
           if newfd = - 1 then die_errno ''F_DUPFD_CLOEXEC'' [] s2
           else andthen (cleanup_commit_close_fd cl newfd s2) (\<lambda>u s3. Ret newfd s3)) = Ret fd s'"
    unfolding xdup_def andthen_Ret_iff by blast
  obtain fd' s2 where o': "sys_dupfd fd0 s1 = (fd', s2)" by (cases "sys_dupfd fd0 s1")
  with rest have ne': "fd' \<noteq> - 1"
    by (auto simp: die_errno_not_Ret)
  with rest o' have "fd' = fd" and c: "cleanup_commit_close_fd cl fd s2 = Ret () s'"
    by (auto simp: andthen_Ret_iff)
  with o' ne' have o: "sys_dupfd fd0 s1 = (fd, s2)" and ne: "fd \<noteq> - 1" by simp_all
  from o ne have s2: "s2 = s1\<lparr>sched := tl (sched s1), open_fds := fd # open_fds s1\<rparr>"
    by (auto simp: sys_dupfd_def Let_def split: prod.splits ext_result.splits if_splits
             dest!: ext_call_Succeed)
  from cleanup_allocate_RetD [OF a] have f1: "blocks s1 = blocks s" "invoked s1 = invoked s"
    "current_errh s1 = current_errh s" by auto
  from c have "s' = s2\<lparr>nodes := (nodes s2)[cl := Some (Cleanup (Some CF_fd_cleanup) fd)]\<rparr>"
    unfolding cleanup_commit_close_fd_def by (auto dest: cleanup_commit_RetD)
  then show ?thesis using s2 f1 by simp
qed


lemma store_fdh_rl_RetD:
  "store_fdh_rl fdh rl s = Ret u s' \<Longrightarrow>
   \<exists>n c. block_at s fdh = Some (Block n c) \<and>
     s' = s\<lparr>blocks := (blocks s)[fdh := Some (Block n (FdhData (Some rl)
                 (case c of FdhData r f \<Rightarrow> f | _ \<Rightarrow> None)))]\<rparr>"
  by (auto simp: store_fdh_rl_def store_block_def split: option.splits block.splits)

lemma store_fdh_fd_RetD:
  "store_fdh_fd fdh fd s = Ret u s' \<Longrightarrow>
   \<exists>n c. block_at s fdh = Some (Block n c) \<and>
     s' = s\<lparr>blocks := (blocks s)[fdh := Some (Block n (FdhData
                 (case c of FdhData r f \<Rightarrow> r | _ \<Rightarrow> None) (Some fd)))]\<rparr>"
  by (auto simp: store_fdh_fd_def store_block_def split: option.splits block.splits)

lemma reslist_pop_nodestroy_RetD:
  "reslist_pop_nodestroy s = Ret u s' \<Longrightarrow>
   \<exists>cur parent c. current_reslist s = Some cur \<and> node_at s cur = Some (Reslist parent c) \<and>
     s' = s\<lparr>current_reslist := parent\<rparr>"
  by (auto simp: reslist_pop_nodestroy_def split: option.splits resource.splits)

lemma fdh_dup_RetD:
  assumes r: "fdh_dup fd s = Ret fdh s'"
    and cur: "current_reslist s = Some cur" "node_at s cur = Some (Reslist p c)"
  shows "\<exists>newfd. fd \<in> set (open_fds s) \<and> newfd \<notin> set (open_fds s) \<and>
           open_fds s' = newfd # open_fds s \<and> fdh = length (blocks s) \<and>
           blocks s' = blocks s @
             [Some (Block sizeof_fdh (FdhData (Some (length (nodes s))) (Some newfd)))] \<and>
           current_reslist s' = Some cur \<and>
           nodes s' = (nodes s)[cur := Some (Reslist p (length (nodes s) # c))] @
             [Some (Reslist (Some cur) [length (nodes s) + 2, length (nodes s) + 1]),
              Some (Cleanup (Some CF_free) (int fdh)),
              Some (Cleanup (Some CF_fd_cleanup) newfd)] \<and>
           invoked s' = invoked s \<and> current_errh s' = current_errh s"
proof -
  let ?n = "length (nodes s)"
  from r obtain rl s1 mem s2 s3 newfd s4 s5 where
    push: "reslist_push_new s = Ret rl s1"
    and xa: "xalloc sizeof_fdh s1 = Ret mem s2"
    and st1: "store_fdh_rl mem rl s2 = Ret () s3"
    and xd: "xdup fd s3 = Ret newfd s4"
    and st2: "store_fdh_fd mem newfd s4 = Ret () s5"
    and pop: "reslist_pop_nodestroy s5 = Ret () s'" and fm: "fdh = mem"
    unfolding fdh_dup_def andthen_Ret_iff by auto
  have lt: "cur < ?n" using cur(2) by (rule node_at_live)
  from reslist_push_new_RetD [OF push cur] have rl: "rl = ?n"
    and s1: "s1 = s\<lparr>n_malloc := Suc (n_malloc s), sched := tl (sched s),
                nodes := (nodes s @ [Some (Reslist (Some cur) [])])[cur := Some (Reslist p (rl # c))],
                current_reslist := Some rl\<rparr>" by simp_all
  have n1: "nodes s1 = (nodes s)[cur := Some (Reslist p (?n # c))] @ [Some (Reslist (Some cur) [])]"
    using s1 rl lt by (simp add: list_update_append)
  have c1: "current_reslist s1 = Some ?n" "blocks s1 = blocks s" "open_fds s1 = open_fds s"
    "invoked s1 = invoked s" "current_errh s1 = current_errh s"
    using s1 rl by simp_all
  have l1: "length (nodes s1) = Suc ?n" using n1 by simp
  have at1: "node_at s1 ?n = Some (Reslist (Some cur) [])"
    using n1 by (simp add: node_at_def nth_append)
  from xalloc_RetD [OF xa] c1(1) at1 have mem: "mem = length (blocks s)"
    and b2: "blocks s2 = blocks s @ [Some (Block sizeof_fdh Uninit)]"
    and n2': "nodes s2 = (nodes s1 @ [Some (Cleanup (Some CF_free) (int mem))])
                        [?n := Some (Reslist (Some cur) [length (nodes s1)])]"
    and c2: "current_reslist s2 = Some ?n" "open_fds s2 = open_fds s"
      "invoked s2 = invoked s" "current_errh s2 = current_errh s"
    using c1 by auto
  have n2: "nodes s2 = (nodes s)[cur := Some (Reslist p (?n # c))] @
      [Some (Reslist (Some cur) [Suc ?n]), Some (Cleanup (Some CF_free) (int mem))]"
    unfolding n2' l1 n1 by (simp add: list_update_append)
  from store_fdh_rl_RetD [OF st1] b2 mem rl
  have s3: "s3 = s2\<lparr>blocks := blocks s @ [Some (Block sizeof_fdh (FdhData (Some ?n) None))]\<rparr>"
    by (auto simp: block_at_def)
  have l3: "length (nodes s3) = Suc (Suc ?n)" using s3 n2 by simp
  have at3: "node_at s3 ?n = Some (Reslist (Some cur) [Suc ?n])"
    using s3 n2 by (simp add: node_at_def nth_append)
  have c3: "current_reslist s3 = Some ?n" using s3 c2 by simp
  from xdup_RetD [OF xd] c3 at3 have fd: "fd \<in> set (open_fds s3)"
    "newfd \<notin> set (open_fds s3)" "open_fds s4 = newfd # open_fds s3"
    and c4: "current_reslist s4 = Some ?n"
    and n4': "nodes s4 = (nodes s3 @ [Some (Cleanup (Some CF_fd_cleanup) newfd)])
                         [?n := Some (Reslist (Some cur) [length (nodes s3), Suc ?n])]"
    by auto
  from xdup_frame [OF xd] have f4: "blocks s4 = blocks s3" "invoked s4 = invoked s3"
    "current_errh s4 = current_errh s3" by simp_all
  have n4: "nodes s4 = (nodes s)[cur := Some (Reslist p (?n # c))] @
      [Some (Reslist (Some cur) [Suc (Suc ?n), Suc ?n]), Some (Cleanup (Some CF_free) (int mem)),
       Some (Cleanup (Some CF_fd_cleanup) newfd)]"
    unfolding n4' l3 using s3 n2 by (simp add: list_update_append)
  from store_fdh_fd_RetD [OF st2] f4(1) s3 mem
  have s5: "s5 = s4\<lparr>blocks := blocks s @
               [Some (Block sizeof_fdh (FdhData (Some ?n) (Some newfd)))]\<rparr>"
    by (auto simp: block_at_def)
  have at5: "node_at s5 ?n = Some (Reslist (Some cur) [Suc (Suc ?n), Suc ?n])"
    using s5 n4 by (simp add: node_at_def nth_append)
  from reslist_pop_nodestroy_RetD [OF pop] c4 s5 at5
  have s': "s' = s5\<lparr>current_reslist := Some cur\<rparr>" by auto
  show ?thesis
    apply (rule exI [of _ newfd])
    using fd s3 c2 f4 s5 s' n4 fm mem by simp
qed

lemma fdh_destroy_frame:
  assumes blk: "block_at t fdh = Some (Block n (FdhData (Some rl) (Some newfd)))"
    and rp: "rep t (Some q) (RScope rl [RCleanup a1 (Some CF_fd_cleanup) newfd,
                                         RCleanup a2 (Some CF_free) (int fdh)])"
    and di: "distinct [q, rl, a1, a2]"
    and qn: "node_at t q = Some (Reslist pp c')"
    and op: "newfd \<in> set (open_fds t)"
  shows "\<exists>t'. fdh_destroy fdh t = Ret () t' \<and>
           invoked t' = invoked t @ [(CF_fd_cleanup, newfd), (CF_free, int fdh)] \<and>
           open_fds t' = removeAll newfd (open_fds t) \<and>
           blocks t' = (blocks t)[fdh := None] \<and>
           node_at t' q = Some (Reslist pp (remove1 rl c')) \<and>
           node_at t' rl = None \<and> node_at t' a1 = None \<and> node_at t' a2 = None \<and>
           (\<forall>a. a \<notin> {q, rl, a1, a2} \<longrightarrow> node_at t' a = node_at t a) \<and>
           untouched t t'"
proof -
  let ?T = "RScope rl [RCleanup a1 (Some CF_fd_cleanup) newfd, RCleanup a2 (Some CF_free) (int fdh)]"
  let ?N = "sweep {rl, a1, a2} (nodes (unlinked (Some q) rl t))"
  have d1: "distinct (addrs ?T)" using di by auto
  have pa: "p \<notin> set (addrs ?T) \<and> (\<exists>pp c. node_at t p = Some (Reslist pp c))"
    if "Some q = Some p" for p using that di qn by auto
  have "fdh_destroy fdh t = reslist_destroy rl t" using blk by (simp add: fdh_destroy_def)
  also have "\<dots> = finish (acts ?T) (sweep (set (addrs ?T)) (nodes (unlinked (Some q) rl t))) t"
    using rp d1 pa by (rule reslist_destroy_rep)
  also have "\<dots> = Ret () (t\<lparr>invoked := invoked t @ [(CF_fd_cleanup, newfd), (CF_free, int fdh)],
                 open_fds := removeAll newfd (open_fds t),
                 blocks := (blocks t)[fdh := None], nodes := ?N\<rparr>)"
    using op by (simp add: finish_def call_cleanupfn_def fd_cleanup_def free_block_def)
  finally have e: "fdh_destroy fdh t = Ret () (t\<lparr>invoked := invoked t @ [(CF_fd_cleanup, newfd), (CF_free, int fdh)],
                 open_fds := removeAll newfd (open_fds t),
                 blocks := (blocks t)[fdh := None], nodes := ?N\<rparr>)" .
  have u: "nodes (unlinked (Some q) rl t) = (nodes t)[q := Some (Reslist pp (remove1 rl c'))]"
    using qn by (simp add: unlinked_def list_remove_from_def set_node_def)
  have lq: "q < length (nodes t)" using qn by (rule node_at_live)
  have N: "node_at (t\<lparr>invoked := i, open_fds := f, blocks := b, nodes := ?N\<rparr>) a =
        (if a \<in> {rl, a1, a2} then None
         else if a = q then Some (Reslist pp (remove1 rl c')) else node_at t a)" for a i f b
    using lq di by (auto simp: node_at_def u nth_sweep nth_update_if)
  show ?thesis
    apply (rule exI, rule conjI, rule e)
    using di by (simp add: N untouched_def)
qed

text \<open>
  C9. \<open>fdh_dup\<close>, called with a live current resource list \<open>cur\<close>, returns a handle in
  fresh memory of \<open>xalloc\<close> that holds a new resource list \<open>rl\<close> and a new descriptor
  \<open>newfd\<close>. The list \<open>rl\<close> is linked at the head of \<open>cur\<close> as a child, it owns the
  record that closes \<open>newfd\<close> and the record that frees the handle, and \<open>cur\<close> is
  current again: the list was popped, not destroyed, and no cleanup has run.
  \<open>fdh_destroy\<close> on the handle, at once or in any later state where the handle, its
  list under a parent \<open>q\<close> and its descriptor are still as they were made, runs exactly
  these two cleanups: it closes \<open>newfd\<close> and no other descriptor, frees the handle and
  no other memory, takes \<open>rl\<close> out of its parent, frees \<open>rl\<close> and its two records, and
  leaves every other resource and the current resource list and handler as they were.
  Destroyed at once, it leaves all resources, all memory and all descriptors as they
  were before \<open>fdh_dup\<close>.
\<close>

theorem fdh_dup_destroy_frame:
  assumes cur: "current_reslist s = Some cur" "node_at s cur = Some (Reslist p c)"
    and dup: "fdh_dup fd s = Ret fdh s1"
  shows "\<exists>rl newfd.
     rl = length (nodes s) \<and> fdh = length (blocks s) \<and>
     fd \<in> set (open_fds s) \<and> newfd \<notin> set (open_fds s) \<and>
     open_fds s1 = newfd # open_fds s \<and>
     block_at s1 fdh = Some (Block sizeof_fdh (FdhData (Some rl) (Some newfd))) \<and>
     (\<forall>a. a \<noteq> fdh \<longrightarrow> block_at s1 a = block_at s a) \<and>
     current_reslist s1 = Some cur \<and> current_errh s1 = current_errh s \<and>
     invoked s1 = invoked s \<and>
     node_at s1 cur = Some (Reslist p (rl # c)) \<and>
     rep s1 (Some cur) (RScope rl [RCleanup (rl + 2) (Some CF_fd_cleanup) newfd,
                                   RCleanup (rl + 1) (Some CF_free) (int fdh)]) \<and>
     (\<forall>a. a \<noteq> cur \<and> a < rl \<longrightarrow> node_at s1 a = node_at s a) \<and>
     (\<exists>s2. fdh_destroy fdh s1 = Ret () s2 \<and>
        invoked s2 = invoked s @ [(CF_fd_cleanup, newfd), (CF_free, int fdh)] \<and>
        open_fds s2 = open_fds s \<and>
        (\<forall>a. block_at s2 a = block_at s a) \<and> (\<forall>a. node_at s2 a = node_at s a) \<and>
        current_reslist s2 = Some cur \<and> current_errh s2 = current_errh s) \<and>
     (\<forall>t n q pp c'.
        block_at t fdh = Some (Block n (FdhData (Some rl) (Some newfd))) \<and>
        rep t (Some q) (RScope rl [RCleanup (rl + 2) (Some CF_fd_cleanup) newfd,
                                   RCleanup (rl + 1) (Some CF_free) (int fdh)]) \<and>
        q \<notin> {rl, rl + 1, rl + 2} \<and> node_at t q = Some (Reslist pp c') \<and>
        newfd \<in> set (open_fds t) \<longrightarrow>
        (\<exists>t'. fdh_destroy fdh t = Ret () t' \<and>
           invoked t' = invoked t @ [(CF_fd_cleanup, newfd), (CF_free, int fdh)] \<and>
           open_fds t' = removeAll newfd (open_fds t) \<and>
           blocks t' = (blocks t)[fdh := None] \<and>
           node_at t' q = Some (Reslist pp (remove1 rl c')) \<and>
           node_at t' rl = None \<and> node_at t' (rl + 1) = None \<and> node_at t' (rl + 2) = None \<and>
           (\<forall>a. a \<notin> {q, rl, rl + 1, rl + 2} \<longrightarrow> node_at t' a = node_at t a) \<and>
           current_reslist t' = current_reslist t \<and> current_errh t' = current_errh t))"
proof -
  let ?n = "length (nodes s)"
  from fdh_dup_RetD [OF dup cur] obtain newfd where
    fd: "fd \<in> set (open_fds s)" "newfd \<notin> set (open_fds s)" "open_fds s1 = newfd # open_fds s"
    and fdh: "fdh = length (blocks s)"
    and b1: "blocks s1 = blocks s @ [Some (Block sizeof_fdh (FdhData (Some ?n) (Some newfd)))]"
    and c1: "current_reslist s1 = Some cur" "invoked s1 = invoked s"
      "current_errh s1 = current_errh s"
    and n1: "nodes s1 = (nodes s)[cur := Some (Reslist p (?n # c))] @
             [Some (Reslist (Some cur) [?n + 2, ?n + 1]),
              Some (Cleanup (Some CF_free) (int fdh)),
              Some (Cleanup (Some CF_fd_cleanup) newfd)]"
    by blast
  let ?T = "RScope ?n [RCleanup (?n + 2) (Some CF_fd_cleanup) newfd,
                       RCleanup (?n + 1) (Some CF_free) (int fdh)]"
  have lt: "cur < ?n" using cur(2) by (rule node_at_live)
  have blk: "block_at s1 fdh = Some (Block sizeof_fdh (FdhData (Some ?n) (Some newfd)))"
    using b1 fdh by (simp add: block_at_def)
  have bo: "\<forall>a. a \<noteq> fdh \<longrightarrow> block_at s1 a = block_at s a"
    using b1 fdh by (auto simp: block_at_def nth_append)
  have atc: "node_at s1 cur = Some (Reslist p (?n # c))"
    using lt by (simp add: node_at_def n1 nth_append)
  have rp: "rep s1 (Some cur) ?T"
    by (simp add: node_at_def n1 nth_append)
  have no: "\<forall>a. a \<noteq> cur \<and> a < ?n \<longrightarrow> node_at s1 a = node_at s a"
    by (auto simp: node_at_def n1 nth_append)
  have later: "\<exists>t'. fdh_destroy fdh t = Ret () t' \<and>
           invoked t' = invoked t @ [(CF_fd_cleanup, newfd), (CF_free, int fdh)] \<and>
           open_fds t' = removeAll newfd (open_fds t) \<and>
           blocks t' = (blocks t)[fdh := None] \<and>
           node_at t' q = Some (Reslist pp (remove1 ?n c')) \<and>
           node_at t' ?n = None \<and> node_at t' (?n + 1) = None \<and> node_at t' (?n + 2) = None \<and>
           (\<forall>a. a \<notin> {q, ?n, ?n + 1, ?n + 2} \<longrightarrow> node_at t' a = node_at t a) \<and>
           current_reslist t' = current_reslist t \<and> current_errh t' = current_errh t"
    if a: "block_at t fdh = Some (Block n (FdhData (Some ?n) (Some newfd))) \<and>
        rep t (Some q) ?T \<and> q \<notin> {?n, ?n + 1, ?n + 2} \<and> node_at t q = Some (Reslist pp c') \<and>
        newfd \<in> set (open_fds t)" for t n q pp c'
  proof -
    from a have di: "distinct [q, ?n, ?n + 2, ?n + 1]" by simp
    from a have a1: "block_at t fdh = Some (Block n (FdhData (Some ?n) (Some newfd)))"
      and a2: "rep t (Some q) ?T" and a3: "node_at t q = Some (Reslist pp c')"
      and a4: "newfd \<in> set (open_fds t)" by blast+
    from fdh_destroy_frame [OF a1 a2 di a3 a4] show ?thesis
      by (auto simp: untouched_def)
  qed
  have ccur: "cur \<notin> {?n, ?n + 1, ?n + 2}" using lt by simp
  have op1: "newfd \<in> set (open_fds s1)" using fd(3) by simp
  from later [of s1 sizeof_fdh cur p "?n # c"] blk rp ccur atc op1
  obtain s2 where d: "fdh_destroy fdh s1 = Ret () s2"
    and i2: "invoked s2 = invoked s1 @ [(CF_fd_cleanup, newfd), (CF_free, int fdh)]"
    and o2: "open_fds s2 = removeAll newfd (open_fds s1)"
    and b2: "blocks s2 = (blocks s1)[fdh := None]"
    and q2: "node_at s2 cur = Some (Reslist p (remove1 ?n (?n # c)))"
    and z2: "node_at s2 ?n = None" "node_at s2 (?n + 1) = None" "node_at s2 (?n + 2) = None"
    and r2: "\<forall>a. a \<notin> {cur, ?n, ?n + 1, ?n + 2} \<longrightarrow> node_at s2 a = node_at s1 a"
    and c2: "current_reslist s2 = current_reslist s1" "current_errh s2 = current_errh s1"
    by blast
  have o2': "open_fds s2 = open_fds s" using o2 fd by simp
  have b2': "block_at s2 a = block_at s a" for a
    using b1 fdh by (auto simp: block_at_def b2 nth_append nth_update_if)
  have n2': "node_at s2 a = node_at s a" for a
  proof -
    consider "a = cur" | "a \<in> {?n, ?n + 1, ?n + 2}" | "a \<noteq> cur" "a < ?n" | "a > ?n + 2"
      by fastforce
    then show ?thesis
    proof cases
      case 1
      then show ?thesis using q2 cur(2) by simp
    next
      case 2
      then show ?thesis using z2 by (auto simp: node_at_def)
    next
      case 3
      then have "node_at s2 a = node_at s1 a" using r2 by simp
      with 3 no show ?thesis by simp
    next
      case 4
      then have "node_at s2 a = node_at s1 a" using r2 lt by simp
      with 4 show ?thesis by (simp add: node_at_def n1)
    qed
  qed
  have now: "\<exists>s2. fdh_destroy fdh s1 = Ret () s2 \<and>
        invoked s2 = invoked s @ [(CF_fd_cleanup, newfd), (CF_free, int fdh)] \<and>
        open_fds s2 = open_fds s \<and>
        (\<forall>a. block_at s2 a = block_at s a) \<and> (\<forall>a. node_at s2 a = node_at s a) \<and>
        current_reslist s2 = Some cur \<and> current_errh s2 = current_errh s"
    using d i2 o2' b2' n2' c2 c1 by simp
  have L: "\<forall>t n q pp c'.
        block_at t fdh = Some (Block n (FdhData (Some ?n) (Some newfd))) \<and>
        rep t (Some q) ?T \<and> q \<notin> {?n, ?n + 1, ?n + 2} \<and> node_at t q = Some (Reslist pp c') \<and>
        newfd \<in> set (open_fds t) \<longrightarrow>
        (\<exists>t'. fdh_destroy fdh t = Ret () t' \<and>
           invoked t' = invoked t @ [(CF_fd_cleanup, newfd), (CF_free, int fdh)] \<and>
           open_fds t' = removeAll newfd (open_fds t) \<and>
           blocks t' = (blocks t)[fdh := None] \<and>
           node_at t' q = Some (Reslist pp (remove1 ?n c')) \<and>
           node_at t' ?n = None \<and> node_at t' (?n + 1) = None \<and> node_at t' (?n + 2) = None \<and>
           (\<forall>a. a \<notin> {q, ?n, ?n + 1, ?n + 2} \<longrightarrow> node_at t' a = node_at t a) \<and>
           current_reslist t' = current_reslist t \<and> current_errh t' = current_errh t)"
    using later by blast
  show ?thesis
    apply (rule exI [of _ ?n], rule exI [of _ newfd])
    apply (intro conjI)
    using fdh fd blk bo c1 atc rp no now L apply blast+
    done
qed

lemma handle_example:
  "case fdh_dup 0 guarded of
     Ret fdh s1 \<Rightarrow>
       (case xalloc 4 s1 of
          Ret m t \<Rightarrow>
            block_at t 0 = Some (Block 16 (FdhData (Some 2) (Some 3))) \<and>
            rep t (Some 1) (RScope 2 [RCleanup 4 (Some CF_fd_cleanup) 3,
                                      RCleanup 3 (Some CF_free) 0]) \<and>
            node_at t 1 = Some (Reslist (Some 0) [5, 2]) \<and>
            node_at t 5 = Some (Cleanup (Some CF_free) 1) \<and>
            block_at t 1 = Some (Block 4 Uninit) \<and>
            open_fds t = [3, 0, 1, 2] \<and> invoked t = [] \<and> length (blocks t) = 2
        | _ \<Rightarrow> False)
   | _ \<Rightarrow> False"
  by code_simp

theorem fdh_dup_destroy_frame_witness:
  "\<exists>fdh s1 s2 m t t'.
     current_reslist guarded = Some 1 \<and> node_at guarded 1 = Some (Reslist (Some 0) []) \<and>
     fdh_dup 0 guarded = Ret fdh s1 \<and> fdh = 0 \<and>
     block_at s1 fdh = Some (Block sizeof_fdh (FdhData (Some 2) (Some 3))) \<and>
     open_fds s1 = [3, 0, 1, 2] \<and> current_reslist s1 = Some 1 \<and>
     node_at s1 1 = Some (Reslist (Some 0) [2]) \<and>
     fdh_destroy fdh s1 = Ret () s2 \<and>
     invoked s2 = [(CF_fd_cleanup, 3), (CF_free, 0)] \<and> open_fds s2 = [0, 1, 2] \<and>
     block_at s2 0 = None \<and> node_at s2 1 = Some (Reslist (Some 0) []) \<and>
     node_at s2 0 = Some (Reslist None [1]) \<and> node_at s2 2 = None \<and>
     xalloc 4 s1 = Ret m t \<and>
     fdh_destroy fdh t = Ret () t' \<and>
     invoked t' = [(CF_fd_cleanup, 3), (CF_free, 0)] \<and> open_fds t' = [0, 1, 2] \<and>
     block_at t' 0 = None \<and> block_at t' 1 = Some (Block 4 Uninit) \<and>
     node_at t' 1 = Some (Reslist (Some 0) [5]) \<and>
     node_at t' 5 = Some (Cleanup (Some CF_free) 1) \<and>
     node_at t' 2 = None \<and> node_at t' 3 = None \<and> node_at t' 4 = None"
proof -
  obtain fdh s1 m t where d: "fdh_dup 0 guarded = Ret fdh s1" and x: "xalloc 4 s1 = Ret m t"
    and t: "block_at t 0 = Some (Block 16 (FdhData (Some 2) (Some 3)))"
      "rep t (Some 1) (RScope 2 [RCleanup 4 (Some CF_fd_cleanup) 3, RCleanup 3 (Some CF_free) 0])"
      "node_at t 1 = Some (Reslist (Some 0) [5, 2])"
      "node_at t 5 = Some (Cleanup (Some CF_free) 1)"
      "block_at t 1 = Some (Block 4 Uninit)"
      "open_fds t = [3, 0, 1, 2]" "invoked t = []" "length (blocks t) = 2"
    using handle_example by (auto split: outcome.splits)
  have g: "current_reslist guarded = Some 1" "node_at guarded 1 = Some (Reslist (Some 0) [])"
    "length (nodes guarded) = 2" "blocks guarded = []" "open_fds guarded = [0, 1, 2]"
    "invoked guarded = []" "node_at guarded 0 = Some (Reslist None [1])"
    "node_at guarded 2 = None" "block_at guarded 0 = None"
    by (simp_all add: guarded_def boot_def node_at_def block_at_def)
  from fdh_dup_destroy_frame [OF g(1,2) d] obtain rl newfd s2 where
    rl: "rl = length (nodes guarded)" and fdh: "fdh = length (blocks guarded)"
    and nf: "newfd \<notin> set (open_fds guarded)" "open_fds s1 = newfd # open_fds guarded"
    and b1: "block_at s1 fdh = Some (Block sizeof_fdh (FdhData (Some rl) (Some newfd)))"
    and c1: "current_reslist s1 = Some 1" "node_at s1 1 = Some (Reslist (Some 0) (rl # []))"
    and now: "fdh_destroy fdh s1 = Ret () s2"
      "invoked s2 = invoked guarded @ [(CF_fd_cleanup, newfd), (CF_free, int fdh)]"
      "open_fds s2 = open_fds guarded" "\<forall>a. block_at s2 a = block_at guarded a"
      "\<forall>a. node_at s2 a = node_at guarded a"
    and later: "\<forall>t n q pp c'.
        block_at t fdh = Some (Block n (FdhData (Some rl) (Some newfd))) \<and>
        rep t (Some q) (RScope rl [RCleanup (rl + 2) (Some CF_fd_cleanup) newfd,
                                   RCleanup (rl + 1) (Some CF_free) (int fdh)]) \<and>
        q \<notin> {rl, rl + 1, rl + 2} \<and> node_at t q = Some (Reslist pp c') \<and>
        newfd \<in> set (open_fds t) \<longrightarrow>
        (\<exists>t'. fdh_destroy fdh t = Ret () t' \<and>
           invoked t' = invoked t @ [(CF_fd_cleanup, newfd), (CF_free, int fdh)] \<and>
           open_fds t' = removeAll newfd (open_fds t) \<and>
           blocks t' = (blocks t)[fdh := None] \<and>
           node_at t' q = Some (Reslist pp (remove1 rl c')) \<and>
           node_at t' rl = None \<and> node_at t' (rl + 1) = None \<and> node_at t' (rl + 2) = None \<and>
           (\<forall>a. a \<notin> {q, rl, rl + 1, rl + 2} \<longrightarrow> node_at t' a = node_at t a) \<and>
           current_reslist t' = current_reslist t \<and> current_errh t' = current_errh t)"
    by blast
  have rl2: "rl = 2" and fdh0: "fdh = 0" using rl fdh g by simp_all
  have nf3: "newfd = 3"
  proof -
    from xalloc_RetD [OF x] have "blocks t = blocks s1 @ [Some (Block 4 Uninit)]" by blast
    with t(8) have l1: "length (blocks s1) = 1" by simp
    with \<open>blocks t = blocks s1 @ [Some (Block 4 Uninit)]\<close>
    have "block_at t 0 = block_at s1 0" by (simp add: block_at_def nth_append)
    with t(1) b1 fdh0 show ?thesis by simp
  qed
  have pre: "block_at t fdh = Some (Block 16 (FdhData (Some rl) (Some newfd))) \<and>
        rep t (Some 1) (RScope rl [RCleanup (rl + 2) (Some CF_fd_cleanup) newfd,
                                   RCleanup (rl + 1) (Some CF_free) (int fdh)]) \<and>
        1 \<notin> {rl, rl + 1, rl + 2} \<and> node_at t 1 = Some (Reslist (Some 0) [5, 2]) \<and>
        newfd \<in> set (open_fds t)"
    using t rl2 fdh0 nf3 by simp
  from later [THEN spec, THEN spec, THEN spec, THEN spec, THEN spec, THEN mp, OF pre]
  obtain t' where t': "fdh_destroy fdh t = Ret () t'"
    "invoked t' = invoked t @ [(CF_fd_cleanup, newfd), (CF_free, int fdh)]"
    "open_fds t' = removeAll newfd (open_fds t)"
    "blocks t' = (blocks t)[fdh := None]"
    "node_at t' 1 = Some (Reslist (Some 0) (remove1 rl [5, 2]))"
    "node_at t' rl = None" "node_at t' (rl + 1) = None" "node_at t' (rl + 2) = None"
    "\<forall>a. a \<notin> {1, rl, rl + 1, rl + 2} \<longrightarrow> node_at t' a = node_at t a"
    by blast
  have bt: "block_at t' 0 = None \<and> block_at t' 1 = Some (Block 4 Uninit)"
    using t'(4) t(5,8) fdh0 by (simp add: block_at_def)
  have n5: "node_at t' 5 = Some (Cleanup (Some CF_free) 1)"
    using t'(9) [THEN spec, of 5] t(4) rl2 by simp
  show ?thesis
    apply (rule exI [of _ fdh], rule exI [of _ s1], rule exI [of _ s2])
    apply (rule exI [of _ m], rule exI [of _ t], rule exI [of _ t'])
    using g d x b1 nf c1 now t' bt n5 t(6,7) rl2 fdh0 nf3 apply simp
    done
qed

section \<open>Allocation that succeeds or fails\<close>

lemma slot_frame [simp]:
  "blocks (set_err e x s) = blocks s" "open_fds (set_err e x s) = open_fds s"
  "invoked (set_err e x s) = invoked s" "n_malloc (set_err e x s) = n_malloc s"
  "current_reslist (set_err e x s) = current_reslist s"
  "blocks (set_msg e m s) = blocks s" "open_fds (set_msg e m s) = open_fds s"
  "invoked (set_msg e m s) = invoked s" "n_malloc (set_msg e m s) = n_malloc s"
  "current_reslist (set_msg e m s) = current_reslist s"
  "blocks (set_prgname_slot e m s) = blocks s" "open_fds (set_prgname_slot e m s) = open_fds s"
  "invoked (set_prgname_slot e m s) = invoked s"
  "n_malloc (set_prgname_slot e m s) = n_malloc s"
  "current_reslist (set_prgname_slot e m s) = current_reslist s"
  "blocks (set_oom e s) = blocks s" "open_fds (set_oom e s) = open_fds s"
  "invoked (set_oom e s) = invoked s" "n_malloc (set_oom e s) = n_malloc s"
  "current_reslist (set_oom e s) = current_reslist s" "sched (set_oom e s) = sched s"
  "prgname (set_oom e s) = prgname s" "libc_format (set_oom e s) = libc_format s"
  by (simp_all add: set_err_def set_msg_def set_prgname_slot_def set_oom_def)

lemma node_at_slot [simp]:
  "node_at (set_err e x s) a = node_at s a" "node_at (set_msg e m s) a = node_at s a"
  "node_at (set_prgname_slot e m s) a = node_at s a" "node_at (set_oom e s) a = node_at s a"
  "node_at (s\<lparr>current_reslist := p\<rparr>) a = node_at s a"
  by (simp_all add: node_at_def)

lemma succeeds_Suc:
  "succeeds (Suc k) s \<Longrightarrow>
   ext_call s = (Succeed, s\<lparr>sched := tl (sched s)\<rparr>) \<and> succeeds k (s\<lparr>sched := tl (sched s)\<rparr>)"
  by (cases "sched s") (auto simp: succeeds_def ext_call_def)

lemma malloc_succeeds:
  "succeeds (Suc k) s \<Longrightarrow>
   malloc s = (True, s\<lparr>n_malloc := Suc (n_malloc s), sched := tl (sched s)\<rparr>) \<and>
   succeeds k (s\<lparr>n_malloc := Suc (n_malloc s), sched := tl (sched s)\<rparr>)"
  using succeeds_Suc [of k "s\<lparr>n_malloc := Suc (n_malloc s)\<rparr>"]
  by (simp add: malloc_def succeeds_def)



lemma cleanup_allocate_succeeds:
  assumes cur: "current_reslist s = Some cur" "node_at s cur = Some (Reslist p c)"
    and ok: "succeeds (Suc k) s"
  shows "cleanup_allocate s = Ret (length (nodes s))
           (s\<lparr>n_malloc := Suc (n_malloc s), sched := tl (sched s),
              nodes := (nodes s @ [Some (Cleanup None 0)])
                         [cur := Some (Reslist p (length (nodes s) # c))]\<rparr>)"
proof -
  have lt: "cur < length (nodes s)" using cur(2) by (rule node_at_live)
  show ?thesis
    using malloc_succeeds [OF ok] cur lt
    by (simp add: cleanup_allocate_def Let_def insert_head_current_def node_at_def nth_append
                  set_node_def)
qed

lemma xalloc_succeeds:
  assumes cur: "current_reslist s = Some cur" "node_at s cur = Some (Reslist p c)"
    and ok: "succeeds (Suc (Suc k)) s"
  shows "xalloc sz s = Ret (length (blocks s))
           (s\<lparr>n_malloc := Suc (Suc (n_malloc s)), sched := tl (tl (sched s)),
              nodes := (nodes s @ [Some (Cleanup (Some CF_free) (int (length (blocks s))))])
                         [cur := Some (Reslist p (length (nodes s) # c))],
              blocks := blocks s @ [Some (Block sz Uninit)]\<rparr>)"
proof -
  let ?s1 = "s\<lparr>n_malloc := Suc (n_malloc s), sched := tl (sched s),
              nodes := (nodes s @ [Some (Cleanup None 0)])
                         [cur := Some (Reslist p (length (nodes s) # c))]\<rparr>"
  have lt: "cur < length (nodes s)" using cur(2) by (rule node_at_live)
  have a: "cleanup_allocate s = Ret (length (nodes s)) ?s1"
    using cur ok by (rule cleanup_allocate_succeeds)
  have "succeeds (Suc k) (s\<lparr>n_malloc := Suc (n_malloc s), sched := tl (sched s)\<rparr>)"
    using malloc_succeeds [OF ok] by simp
  then have "succeeds (Suc k) ?s1" by (simp add: succeeds_def)
  from malloc_succeeds [OF this]
  have m: "malloc ?s1 = (True, ?s1\<lparr>n_malloc := Suc (n_malloc ?s1), sched := tl (sched ?s1)\<rparr>)"
    by simp
  show ?thesis
    unfolding xalloc_def a andthen.simps m
    using lt
    by (simp add: Let_def cleanup_commit_def node_at_def set_node_def nth_append
                  list_update_append list_update_swap [of cur])
qed






section \<open>Formatting into memory of xalloc\<close>

lemma xavprintf_Formatted:
  assumes f: "vsnprintf s fmt args = Formatted out"
  shows "xavprintf fmt args s =
           andthen (xalloc (length out + 1) s) (\<lambda>buf s1.
             andthen (store_block buf (CString out) s1) (\<lambda>u s2. Ret buf s2))"
proof -
  have k: "(case vsnprintf s1 fmt args of
              Formatted out2 \<Rightarrow>
                andthen (store_block buf (CString (take (length out + 1 - 1) out2)) s1)
                  (\<lambda>u s2. Ret buf s2)
            | Failed \<Rightarrow> Ret buf s1
            | Undefined \<Rightarrow> Fault) =
           andthen (store_block buf (CString out) s1) (\<lambda>u s2. Ret buf s2)"
    if "xalloc (length out + 1) s = Ret buf s1" for buf s1
  proof -
    from xalloc_env [OF that] have "vsnprintf s1 fmt args = vsnprintf s fmt args"
      by (intro vsnprintf_cong) simp
    then show ?thesis by (simp add: f)
  qed
  have "xavprintf fmt args s =
          andthen (xalloc (length out + 1) s) (\<lambda>buf s1.
            case vsnprintf s1 fmt args of
              Formatted out2 \<Rightarrow>
                andthen (store_block buf (CString (take (length out + 1 - 1) out2)) s1)
                  (\<lambda>u s2. Ret buf s2)
            | Failed \<Rightarrow> Ret buf s1
            | Undefined \<Rightarrow> Fault)"
    by (subst xavprintf.simps) (simp only: f fmt_result.case Let_def)
  also have "\<dots> = andthen (xalloc (length out + 1) s) (\<lambda>buf s1.
             andthen (store_block buf (CString out) s1) (\<lambda>u s2. Ret buf s2))"
    using k by (cases "xalloc (length out + 1) s") simp_all
  finally show ?thesis .
qed



lemma diev_not_Ret: "diev err fmt args s \<noteq> Ret v s'"
  by (subst diev.simps)
     (auto simp: destroy_and_jump_not_Ret Let_def
           split: option.splits resource.splits outcome.splits if_splits)

lemma xavprintf_succeeds:
  assumes f: "vsnprintf s fmt args = Formatted out"
    and cur: "current_reslist s = Some cur" "node_at s cur = Some (Reslist p c)"
    and ok: "succeeds (Suc (Suc k)) s"
  shows "xavprintf fmt args s = Ret (length (blocks s))
           (s\<lparr>n_malloc := Suc (Suc (n_malloc s)), sched := tl (tl (sched s)),
              nodes := (nodes s @ [Some (Cleanup (Some CF_free) (int (length (blocks s))))])
                         [cur := Some (Reslist p (length (nodes s) # c))],
              blocks := blocks s @ [Some (Block (length out + 1) (CString out))]\<rparr>)"
  unfolding xavprintf_Formatted [OF f] xalloc_succeeds [OF cur ok]
  by (simp add: store_block_def block_at_def)





section \<open>What a raise delivers\<close>




section \<open>Raising with a message\<close>

lemma noreturn_destroy_and_jump: "noreturn (destroy_and_jump h s) = destroy_and_jump h s"
  by (simp add: noreturn_def andthen_destroy_and_jump)



lemma diev_no_slot:
  assumes "current_errh s = Some h" "node_at s (errh_rl h) = Some (Reslist parent c)"
    "errh_ei h = None"
  shows "diev err fmt args s = destroy_and_jump h (s\<lparr>current_reslist := parent\<rparr>)"
  using assms by (subst diev.simps) simp


lemma diev_want:
  assumes h: "current_errh s = Some h" "node_at s (errh_rl h) = Some (Reslist parent c)"
    "errh_ei h = Some e" "ei_want_msg (eis s e)"
    and ng: "\<not> (vsnprintf s ''%s'' [AStr (prgname s)] = Failed \<and> sched s = [])"
  shows "diev err fmt args s =
     (case xavprintf fmt args (set_err e err (s\<lparr>current_reslist := parent\<rparr>)) of
        Ret m s3 \<Rightarrow>
          (case xavprintf ''%s'' [AStr (prgname s3)] (set_msg e (SHeap m) s3) of
             Ret p s5 \<Rightarrow> destroy_and_jump h (set_prgname_slot e (SHeap p) s5)
           | Jump w s5 \<Rightarrow> Jump w s5 | Abort r \<Rightarrow> Abort r | Fault \<Rightarrow> Fault)
      | Jump w s3 \<Rightarrow> Jump w s3 | Abort r \<Rightarrow> Abort r | Fault \<Rightarrow> Fault)"
proof -
  have w: "ei_want_msg (eis (set_err e err (s\<lparr>current_reslist := parent\<rparr>)) e)"
    using h(4) by (simp add: set_err_def)
  show ?thesis
    using h w ng
    by (subst diev.simps) (auto simp add: Let_def cong: outcome.case_cong split: if_splits)
qed

lemma diev_msg:
  assumes h: "current_errh s = Some h" "node_at s (errh_rl h) = Some (Reslist parent c)"
    "errh_ei h = Some e" "ei_want_msg (eis s e)"
    and f: "vsnprintf s fmt args = Formatted out"
    and short: "int (length (cstr (prgname s))) \<le> INT_MAX"
    and par: "parent = Some par" "node_at s par = Some (Reslist pp pc)"
    and ok: "succeeds 4 s"
  shows "diev err fmt args s = destroy_and_jump h
           (s\<lparr>current_reslist := parent,
              eis := (eis s)(e := (eis s e)\<lparr>ei_err := err, ei_msg := SHeap (length (blocks s)),
                                   ei_prgname := SHeap (Suc (length (blocks s)))\<rparr>),
              n_malloc := n_malloc s + 4, sched := tl (tl (tl (tl (sched s)))),
              nodes := (nodes s @ [Some (Cleanup (Some CF_free) (int (length (blocks s)))),
                                   Some (Cleanup (Some CF_free) (int (Suc (length (blocks s)))))])
                         [par := Some (Reslist pp (Suc (length (nodes s)) # length (nodes s) # pc))],
              blocks := blocks s @ [Some (Block (length out + 1) (CString out)),
                                    Some (Block (length (cstr (prgname s)) + 1)
                                            (CString (cstr (prgname s))))]\<rparr>)"
proof -
  let ?s2 = "set_err e err (s\<lparr>current_reslist := parent\<rparr>)"
  have lt: "par < length (nodes s)" using par(2) by (rule node_at_live)
  have "nodes ?s2 = nodes s" by (simp add: set_err_def)
  from node_at_nodes_cong [OF this, of par]
  have c2: "current_reslist ?s2 = Some par" "node_at ?s2 par = Some (Reslist pp pc)"
    using par by (simp_all add: set_err_def)
  have ok4: "succeeds (Suc (Suc 2)) ?s2"
    using ok by (simp add: succeeds_def set_err_def eval_nat_numeral)
  have f2: "vsnprintf ?s2 fmt args = Formatted out" using f by simp
  note x1 = xavprintf_succeeds [OF f2 c2 ok4]
  let ?s3 = "?s2\<lparr>n_malloc := Suc (Suc (n_malloc ?s2)), sched := tl (tl (sched ?s2)),
              nodes := (nodes ?s2 @ [Some (Cleanup (Some CF_free) (int (length (blocks ?s2))))])
                         [par := Some (Reslist pp (length (nodes ?s2) # pc))],
              blocks := blocks ?s2 @ [Some (Block (length out + 1) (CString out))]\<rparr>"
  let ?s4 = "set_msg e (SHeap (length (blocks ?s2))) ?s3"
  have c4: "current_reslist ?s4 = Some par"
    "node_at ?s4 par = Some (Reslist pp (length (nodes s) # pc))"
    using par(1) lt by (simp_all add: set_err_def set_msg_def node_at_def)
  have "succeeds 2 ?s3"
    using malloc_succeeds [OF ok4] ok
    by (cases "sched s"; cases "tl (sched s)") (auto simp: succeeds_def set_err_def eval_nat_numeral)
  then have ok2: "succeeds (Suc (Suc 0)) ?s4"
    by (simp add: succeeds_def set_msg_def eval_nat_numeral)
  have p3: "prgname ?s3 = prgname s" by (simp add: set_err_def)
  have f4: "vsnprintf ?s4 ''%s'' [AStr (prgname s)] = Formatted (cstr (prgname s))"
    using short by (simp add: vsnprintf_percent_s)
  note x2 = xavprintf_succeeds [OF f4 c4 ok2]
  have ng: "\<not> (vsnprintf s ''%s'' [AStr (prgname s)] = Failed \<and> sched s = [])"
    using short by (simp add: vsnprintf_percent_s)
  show ?thesis
    unfolding diev_want [OF h ng] x1 outcome.case p3 x2
    apply (rule arg_cong [where f = "destroy_and_jump h"])
    using lt
    apply (simp add: set_err_def set_msg_def set_prgname_slot_def list_update_append
                     eval_nat_numeral)
    done
qed



section \<open>Formatted strings\<close>






lemma starved_invalid_format:
  "vsnprintf starved ''%'' [] = Failed \<and>
   delivered 0 (xavprintf ''%'' [] starved) = Some (ENOMEM, SStatic ''no memory'')"
  by code_simp

theorem invalid_format_out_of_memory_counterexample:
  "vsnprintf starved ''%'' [] = Failed \<and>
   delivered 0 (xavprintf ''%'' [] starved) = Some (ENOMEM, SStatic ''no memory'') \<and>
   delivered 0 (xavprintf ''%'' [] starved) \<noteq> Some (EINVAL, SStatic ''no memory'')"
  unfolding starved_invalid_format [THEN conjunct2]
  using starved_invalid_format by (simp add: ENOMEM_def EINVAL_def)



end
